theory Spec2Isabelle
  imports Complex_Main "HOL-Library.Multiset" "HOL-Library.List_Lexorder" "HOL-Library.Char_ord"
begin

section \<open>Values, records and errors\<close>

text \<open>
  The gather operation of \<^verbatim>\<open>motion/operations/gather.py\<close> works on chunk records, which are
  Python dictionaries from field names to arbitrary values. The values modelled here are the
  scalar ones: \<^verbatim>\<open>None\<close>, booleans, unbounded integers and strings. Floating point numbers and
  containers as field values are outside the model (a count of the configuration, which is
  only ever passed to \<^verbatim>\<open>int\<close>, may be a floating point number, see below), and so are integers
  of more decimal digits than the interpreter converts to a string. A string is a list of
  characters, one \<^typ>\<open>char\<close> per code point (code points below 256).
\<close>

datatype pyval = VNone | VBool bool | VInt int | VStr string

type_synonym chunk = "string \<rightharpoonup> pyval"

text \<open>
  Exceptions are values. \<open>KeyError k\<close> is a failed lookup of key \<open>k\<close>; \<open>ValueError\<close> and
  \<open>TypeError\<close> carry the message of the \<^verbatim>\<open>raise\<close> statement in \<^verbatim>\<open>syntax_check\<close>, or the name of
  the builtin operation (\<^verbatim>\<open>int()\<close>, \<^verbatim>\<open>len()\<close>, \<^verbatim>\<open><\<close>) when the interpreter raises them.
  \<open>OverflowError\<close> is what \<^verbatim>\<open>int\<close> raises on an infinite floating point number.
\<close>

datatype error = KeyError string | ValueError string | TypeError string | IndexError | OverflowError

subsection \<open>Builtins: \<^verbatim>\<open>str\<close>, \<^verbatim>\<open>len\<close>, \<^verbatim>\<open>int\<close>, \<^verbatim>\<open>==\<close> on dictionary keys\<close>

definition digit_char :: "nat \<Rightarrow> char" where
  "digit_char d = ''0123456789'' ! d"

fun str_nat :: "nat \<Rightarrow> string" where
  "str_nat n = (if n < 10 then [digit_char n] else str_nat (n div 10) @ [digit_char (n mod 10)])"

declare str_nat.simps [simp del]

definition str_int :: "int \<Rightarrow> string" where
  "str_int i = (if i < 0 then ''-'' @ str_nat (nat (- i)) else str_nat (nat i))"

text \<open>What an f-string writes for a value: \<^verbatim>\<open>format(v, "")\<close>, which is \<^verbatim>\<open>str(v)\<close>.\<close>

fun py_str :: "pyval \<Rightarrow> string" where
  "py_str VNone = ''None''"
| "py_str (VBool b) = (if b then ''True'' else ''False'')"
| "py_str (VInt i) = str_int i"
| "py_str (VStr s) = s"

fun py_len :: "pyval \<Rightarrow> error + int" where
  "py_len (VStr s) = Inr (int (length s))"
| "py_len v = Inl (TypeError ''len()'')"

text \<open>
  The blanks that \<^verbatim>\<open>int\<close> strips from a string: the ASCII ones, code points 9 to 13 and 32,
  and of the code points from 127 on those that are Unicode white space, which below 256 are
  133 and 160. The separators 28 to 31 are not among them: the conversion replaces only
  characters from 127 on by a space and then strips the ASCII blanks.
\<close>

definition is_space :: "char \<Rightarrow> bool" where
  "is_space c = (let n = (of_char c :: nat) in
     (9 \<le> n \<and> n \<le> 13) \<or> n = 32 \<or> n = 133 \<or> n = 160)"

definition is_digit :: "char \<Rightarrow> bool" where
  "is_digit c = (let n = (of_char c :: nat) in 48 \<le> n \<and> n \<le> 57)"

definition digit_val :: "char \<Rightarrow> nat" where
  "digit_val c = of_char c - 48"

text \<open>Decimal digits, a single underscore allowed between two digits.\<close>

fun parse_rest :: "nat \<Rightarrow> string \<Rightarrow> nat option" where
  "parse_rest acc [] = Some acc"
| "parse_rest acc (c # cs) =
     (if is_digit c then parse_rest (10 * acc + digit_val c) cs
      else if c = CHR ''_'' then
        (case cs of
           [] \<Rightarrow> None
         | d # ds \<Rightarrow> if is_digit d then parse_rest (10 * acc + digit_val d) ds else None)
      else None)"

definition parse_digits :: "string \<Rightarrow> nat option" where
  "parse_digits s =
     (case s of
        [] \<Rightarrow> None
      | c # cs \<Rightarrow> if is_digit c then parse_rest (digit_val c) cs else None)"

definition strip :: "string \<Rightarrow> string" where
  "strip s = rev (dropWhile is_space (rev (dropWhile is_space s)))"

text \<open>
  The interpreter refuses a decimal literal of more than \<^verbatim>\<open>sys.get_int_max_str_digits()\<close>
  digits, 4300 unless the limit has been changed; the digits are counted without the sign
  and the underscores, leading zeros included. Too many digits and a malformed literal are
  the same \<^verbatim>\<open>ValueError\<close> here.
\<close>

definition max_str_digits :: nat where
  "max_str_digits = 4300"

definition parse_literal :: "string \<Rightarrow> nat option" where
  "parse_literal s =
     (if length (filter is_digit s) > max_str_digits then None else parse_digits s)"

definition int_of_str :: "string \<Rightarrow> int option" where
  "int_of_str s =
     (case strip s of
        [] \<Rightarrow> None
      | c # cs \<Rightarrow>
          if c = CHR ''-'' then map_option (\<lambda>n. - int n) (parse_literal cs)
          else if c = CHR ''+'' then map_option int (parse_literal cs)
          else map_option int (parse_literal (c # cs)))"

text \<open>
  \<^verbatim>\<open>int(v)\<close>: an integer is itself, a boolean is 0 or 1, a string is parsed in base 10
  (\<^verbatim>\<open>ValueError\<close> when it is no literal or has too many digits), \<^verbatim>\<open>None\<close> is a
  \<^verbatim>\<open>TypeError\<close>.
\<close>

fun py_int :: "pyval \<Rightarrow> error + int" where
  "py_int (VInt i) = Inr i"
| "py_int (VBool b) = Inr (if b then 1 else 0)"
| "py_int (VStr s) = (case int_of_str s of None \<Rightarrow> Inl (ValueError ''int()'') | Some i \<Rightarrow> Inr i)"
| "py_int VNone = Inl (TypeError ''int()'')"

text \<open>
  A floating point number is not a number (\<^verbatim>\<open>nan\<close>), an infinity with its sign (\<open>True\<close> for
  the negative one), or finite, and then the rational number it stands for; the finite ones
  are taken to be all rationals, of which the doubles are a part. \<^verbatim>\<open>int\<close> cuts a finite
  number off towards zero and raises \<^verbatim>\<open>ValueError\<close> on \<^verbatim>\<open>nan\<close> and \<^verbatim>\<open>OverflowError\<close> on an
  infinity.
\<close>

datatype pyfloat = FNan | FInf bool | FFinite rat

fun float_int :: "pyfloat \<Rightarrow> error + int" where
  "float_int FNan = Inl (ValueError ''int()'')"
| "float_int (FInf negative) = Inl OverflowError"
| "float_int (FFinite q) = Inr (if q < 0 then - \<lfloor>- q\<rfloor> else \<lfloor>q\<rfloor>)"

text \<open>
  The value of a \<^verbatim>\<open>count\<close> key of the configuration: one of the scalar values, or a floating
  point number. The program does nothing with it but \<^verbatim>\<open>int(count)\<close>.
\<close>

datatype count = CScalar pyval | CFloat pyfloat

fun count_int :: "count \<Rightarrow> error + int" where
  "count_int (CScalar v) = py_int v"
| "count_int (CFloat x) = float_int x"

text \<open>
  Dictionary keys are compared with \<^verbatim>\<open>==\<close> (and equal hashes): \<^verbatim>\<open>True == 1\<close> and
  \<^verbatim>\<open>False == 0\<close>, every other pair of modelled values is equal only to itself.
\<close>

fun dict_key :: "pyval \<Rightarrow> pyval" where
  "dict_key (VBool b) = VInt (if b then 1 else 0)"
| "dict_key v = v"

definition py_eq :: "pyval \<Rightarrow> pyval \<Rightarrow> bool" where
  "py_eq a b = (dict_key a = dict_key b)"

fun join :: "string \<Rightarrow> string list \<Rightarrow> string" where
  "join sep [] = []"
| "join sep [x] = x"
| "join sep (x # y # ys) = x @ sep @ join sep (y # ys)"

text \<open>A loop whose body may raise: the first error ends it.\<close>

fun for_each :: "('s \<Rightarrow> 'a \<Rightarrow> error + 's) \<Rightarrow> 's \<Rightarrow> 'a list \<Rightarrow> error + 's" where
  "for_each body st [] = Inr st"
| "for_each body st (x # xs) =
     (case body st x of Inl e \<Rightarrow> Inl e | Inr st' \<Rightarrow> for_each body st' xs)"

fun map_err :: "('a \<Rightarrow> error + 'b) \<Rightarrow> 'a list \<Rightarrow> error + 'b list" where
  "map_err f [] = Inr []"
| "map_err f (x # xs) =
     (case f x of
        Inl e \<Rightarrow> Inl e
      | Inr y \<Rightarrow> (case map_err f xs of Inl e \<Rightarrow> Inl e | Inr ys \<Rightarrow> Inr (y # ys)))"

definition lookup :: "chunk \<Rightarrow> string \<Rightarrow> error + pyval" where
  "lookup c k = (case c k of None \<Rightarrow> Inl (KeyError k) | Some v \<Rightarrow> Inr v)"

section \<open>Configuration\<close>

text \<open>
  The configuration dictionary, as a typed view of its recognised keys: a key that may be
  absent is an option. The three field-name keys hold strings and every section holds a
  dictionary; the two markers hold any value and \<open>count\<close> any value or a floating point
  number, since \<^verbatim>\<open>syntax_check\<close> and \<^verbatim>\<open>execute\<close> look at their types.
\<close>

record section_config =
  sec_count :: "count option"
  sec_content_key :: "string option"

record direction_config =
  dir_head :: "section_config option"
  dir_middle :: "section_config option"
  dir_tail :: "section_config option"

record peripheral_config =
  per_previous :: "direction_config option"
  per_next :: "direction_config option"

record config =
  cfg_content_key :: "string option"
  cfg_doc_id_key :: "string option"
  cfg_order_key :: "string option"
  cfg_peripheral_chunks :: "peripheral_config option"
  cfg_main_chunk_start :: "pyval option"
  cfg_main_chunk_end :: "pyval option"

definition empty_section :: section_config where
  "empty_section = \<lparr>sec_count = None, sec_content_key = None\<rparr>"

definition empty_direction :: direction_config where
  "empty_direction = \<lparr>dir_head = None, dir_middle = None, dir_tail = None\<rparr>"

datatype bucket = Head | Tail | Middle | Skipped

section \<open>\<^verbatim>\<open>syntax_check\<close>\<close>

text \<open>A name between single quotes, as the messages write it.\<close>

definition quoted :: "string \<Rightarrow> string" where
  "quoted name = [CHR 0x27] @ name @ [CHR 0x27]"

definition check_section :: "string \<Rightarrow> string \<Rightarrow> section_config option \<Rightarrow> error + unit" where
  "check_section direction sect sc =
     (case sc of
        None \<Rightarrow> Inr ()
      | Some section_config \<Rightarrow>
          if sect \<noteq> ''middle'' \<and> sec_count section_config = None
          then Inl (ValueError (''Missing '' @ quoted ''count'' @ '' in '' @ direction @ ''.'' @ sect @ '' configuration''))
          else Inr ())"

definition check_direction :: "string \<Rightarrow> direction_config option \<Rightarrow> error + unit" where
  "check_direction direction dc =
     (case dc of
        None \<Rightarrow> Inr ()
      | Some d \<Rightarrow>
          (case check_section direction ''head'' (dir_head d) of
             Inl e \<Rightarrow> Inl e
           | Inr _ \<Rightarrow>
          (case check_section direction ''middle'' (dir_middle d) of
             Inl e \<Rightarrow> Inl e
           | Inr _ \<Rightarrow> check_section direction ''tail'' (dir_tail d))))"

definition is_str :: "pyval \<Rightarrow> bool" where
  "is_str v = (case v of VStr _ \<Rightarrow> True | _ \<Rightarrow> False)"

definition check_marker :: "string \<Rightarrow> pyval option \<Rightarrow> error + unit" where
  "check_marker name m =
     (case m of
        None \<Rightarrow> Inr ()
      | Some v \<Rightarrow> if \<not> is_str v then Inl (TypeError (quoted name @ '' must be a string'')) else Inr ())"

definition missing_key :: "string \<Rightarrow> error" where
  "missing_key key = ValueError (''Missing required key '' @ quoted key @ '' in GatherOperation configuration'')"

definition syntax_check :: "config \<Rightarrow> error + unit" where
  "syntax_check cfg =
     (if cfg_content_key cfg = None then Inl (missing_key ''content_key'')
      else if cfg_doc_id_key cfg = None then Inl (missing_key ''doc_id_key'')
      else if cfg_order_key cfg = None then Inl (missing_key ''order_key'')
      else
        (case cfg_peripheral_chunks cfg of
           None \<Rightarrow> Inl (ValueError (''Missing '' @ quoted ''peripheral_chunks'' @ '' configuration in GatherOperation''))
         | Some peripheral_config \<Rightarrow>
             (case check_direction ''previous'' (per_previous peripheral_config) of
                Inl e \<Rightarrow> Inl e
              | Inr _ \<Rightarrow>
             (case check_direction ''next'' (per_next peripheral_config) of
                Inl e \<Rightarrow> Inl e
              | Inr _ \<Rightarrow>
             (case check_marker ''main_chunk_start'' (cfg_main_chunk_start cfg) of
                Inl e \<Rightarrow> Inl e
              | Inr _ \<Rightarrow> check_marker ''main_chunk_end'' (cfg_main_chunk_end cfg))))))"

section \<open>\<^verbatim>\<open>process_peripheral_chunks\<close>\<close>

text \<open>The \<^verbatim>\<open>if\<close>/\<^verbatim>\<open>elif\<close> chain that chooses the section of index \<open>i\<close>.\<close>

definition classify :: "int \<Rightarrow> int \<Rightarrow> int \<Rightarrow> bool \<Rightarrow> int \<Rightarrow> bucket" where
  "classify head_count tail_count total_chunks has_middle i =
     (if i < head_count then Head
      else if i \<ge> total_chunks - tail_count then Tail
      else if has_middle then Middle
      else Skipped)"

text \<open>\<^verbatim>\<open>"middle" in config\<close>\<close>

definition has_middle :: "direction_config \<Rightarrow> bool" where
  "has_middle config = (dir_middle config \<noteq> None)"

text \<open>\<^verbatim>\<open>sum(len(c[content_key]) for c in chunks)\<close>\<close>

fun skipped_chars :: "chunk list \<Rightarrow> string \<Rightarrow> error + int" where
  "skipped_chars [] content_key = Inr 0"
| "skipped_chars (c # cs) content_key =
     (case lookup c content_key of
        Inl e \<Rightarrow> Inl e
      | Inr v \<Rightarrow>
          (case py_len v of
             Inl e \<Rightarrow> Inl e
           | Inr n \<Rightarrow> (case skipped_chars cs content_key of Inl e \<Rightarrow> Inl e | Inr m \<Rightarrow> Inr (n + m))))"

definition skip_line :: "int \<Rightarrow> string" where
  "skip_line n = ''[... '' @ str_int n @ '' characters skipped ...]''"

definition get_section :: "direction_config \<Rightarrow> bucket \<Rightarrow> section_config" where
  "get_section config sect =
     (case (case sect of Head \<Rightarrow> dir_head config | Tail \<Rightarrow> dir_tail config
                       | Middle \<Rightarrow> dir_middle config | Skipped \<Rightarrow> None) of
        None \<Rightarrow> empty_section
      | Some sc \<Rightarrow> sc)"

text \<open>The line of a chunk that is shown in section \<open>sect\<close>.\<close>

definition chunk_line :: "direction_config \<Rightarrow> string \<Rightarrow> string \<Rightarrow> bucket \<Rightarrow> chunk \<Rightarrow> error + string" where
  "chunk_line config content_key order_key sect chunk =
     (let section_config = get_section config sect;
          section_content_key = (case sec_content_key section_config of None \<Rightarrow> content_key | Some k \<Rightarrow> k);
          is_summary = (section_content_key \<noteq> content_key);
          summary_suffix = (if is_summary then '' (Summary)'' else '''')
      in case lookup chunk order_key of
           Inl e \<Rightarrow> Inl e
         | Inr ov \<Rightarrow>
             (case lookup chunk section_content_key of
                Inl e \<Rightarrow> Inl e
              | Inr cv \<Rightarrow> Inr ((''[Chunk '' @ py_str ov @ summary_suffix @ '']'') @ '' '' @ py_str cv)))"

text \<open>
  The state of the loop. The list \<^verbatim>\<open>included_chunks\<close> of the source is written and never
  read, and is left out.
\<close>

record loop_state =
  processed_parts :: "string list"
  in_skip :: bool
  skip_char_count :: int

definition loop_body ::
  "chunk list \<Rightarrow> direction_config \<Rightarrow> string \<Rightarrow> string \<Rightarrow> int \<Rightarrow> int \<Rightarrow>
   loop_state \<Rightarrow> nat \<times> chunk \<Rightarrow> error + loop_state" where
  "loop_body chunks config content_key order_key head_count tail_count st ic =
     (case ic of (i, chunk) \<Rightarrow>
        (case classify head_count tail_count (int (length chunks)) (has_middle config) (int i) of
           Skipped \<Rightarrow>
             (case skipped_chars chunks content_key of
                Inl e \<Rightarrow> Inl e
              | Inr n \<Rightarrow>
                  if \<not> in_skip st
                  then Inr (st\<lparr>skip_char_count := skip_char_count st + n, in_skip := True\<rparr>)
                  else Inr (st\<lparr>skip_char_count := skip_char_count st + n\<rparr>))
         | sect \<Rightarrow>
             (let st1 = (if in_skip st
                         then st\<lparr>processed_parts := processed_parts st @ [skip_line (skip_char_count st)],
                                 in_skip := False, skip_char_count := 0\<rparr>
                         else st)
              in case chunk_line config content_key order_key sect chunk of
                   Inl e \<Rightarrow> Inl e
                 | Inr l \<Rightarrow> Inr (st1\<lparr>processed_parts := processed_parts st1 @ [l]\<rparr>))))"

text \<open>\<^verbatim>\<open>int(config.get(section, {}).get("count", 0))\<close>\<close>

definition section_count :: "section_config option \<Rightarrow> error + int" where
  "section_count sc =
     (let section_config = (case sc of None \<Rightarrow> empty_section | Some s \<Rightarrow> s)
      in count_int (case sec_count section_config of None \<Rightarrow> CScalar (VInt 0) | Some v \<Rightarrow> v))"

text \<open>After the loop a pending skip run is written out.\<close>

definition final_parts :: "loop_state \<Rightarrow> string list" where
  "final_parts st =
     (if in_skip st then processed_parts st @ [skip_line (skip_char_count st)]
      else processed_parts st)"

definition process_peripheral_chunks ::
  "chunk list \<Rightarrow> direction_config \<Rightarrow> string \<Rightarrow> string \<Rightarrow> bool \<Rightarrow> error + string list" where
  "process_peripheral_chunks chunks0 config content_key order_key reverse =
     (let chunks = (if reverse then rev chunks0 else chunks0)
      in case section_count (dir_head config) of
           Inl e \<Rightarrow> Inl e
         | Inr head_count \<Rightarrow>
        (case section_count (dir_tail config) of
           Inl e \<Rightarrow> Inl e
         | Inr tail_count \<Rightarrow>
        (case for_each (loop_body chunks config content_key order_key head_count tail_count)
                \<lparr>processed_parts = [], in_skip = False, skip_char_count = 0\<rparr>
                (enumerate 0 chunks) of
           Inl e \<Rightarrow> Inl e
         | Inr st \<Rightarrow> Inr (if reverse then rev (final_parts st) else final_parts st))))"

section \<open>\<^verbatim>\<open>format_chunk_with_context\<close>\<close>

definition format_chunk_with_context ::
  "chunk list \<Rightarrow> nat \<Rightarrow> peripheral_config \<Rightarrow> string \<Rightarrow> string \<Rightarrow> pyval \<Rightarrow> pyval \<Rightarrow> error + string" where
  "format_chunk_with_context chunks current_index peripheral content_key order_key
       main_chunk_start main_chunk_end =
     (case process_peripheral_chunks (take current_index chunks)
             (case per_previous peripheral of None \<Rightarrow> empty_direction | Some d \<Rightarrow> d)
             content_key order_key True of
        Inl e \<Rightarrow> Inl e
      | Inr prev_parts \<Rightarrow>
          if current_index \<ge> length chunks then Inl IndexError
          else
            (case lookup (chunks ! current_index) content_key of
               Inl e \<Rightarrow> Inl e
             | Inr content \<Rightarrow>
                 (case process_peripheral_chunks (drop (current_index + 1) chunks)
                         (case per_next peripheral of None \<Rightarrow> empty_direction | Some d \<Rightarrow> d)
                         content_key order_key False of
                    Inl e \<Rightarrow> Inl e
                  | Inr next_parts \<Rightarrow>
                      Inr (join ''\<newline>''
                            ([''--- Previous Context ---''] @ prev_parts
                             @ [''--- End Previous Context ---\<newline>'']
                             @ [py_str main_chunk_start @ ''\<newline>'' @ py_str content
                                @ ''\<newline>'' @ py_str main_chunk_end]
                             @ [''\<newline>--- Next Context ---''] @ next_parts
                             @ [''--- End Next Context ---''])))))"

section \<open>\<^verbatim>\<open>execute\<close>\<close>

text \<open>
  The dictionary \<^verbatim>\<open>grouped_chunks\<close> keeps its keys in the order of their insertion, so it is
  an association list. The items of a group are the records of the input; the functions
  below take a reader \<open>rd\<close> from an item to the record it stands for, which is the identity
  when the items are the records themselves and a heap lookup when they are references.
\<close>

type_synonym 'a groups = "(pyval \<times> 'a list) list"

text \<open>
  \<^verbatim>\<open>if doc_id not in grouped_chunks: grouped_chunks[doc_id] = []\<close> followed by
  \<^verbatim>\<open>grouped_chunks[doc_id].append(item)\<close>: a new key goes to the end with the one item,
  an old key keeps its place and its list grows at the end.
\<close>

fun group_add :: "pyval \<Rightarrow> 'a \<Rightarrow> 'a groups \<Rightarrow> 'a groups" where
  "group_add doc_id item [] = [(doc_id, [item])]"
| "group_add doc_id item ((k, items) # g) =
     (if py_eq k doc_id then (k, items @ [item]) # g else (k, items) # group_add doc_id item g)"

definition group_step :: "('a \<Rightarrow> chunk) \<Rightarrow> string \<Rightarrow> 'a groups \<Rightarrow> 'a \<Rightarrow> error + 'a groups" where
  "group_step rd doc_id_key grouped_chunks item =
     (case lookup (rd item) doc_id_key of
        Inl e \<Rightarrow> Inl e
      | Inr doc_id \<Rightarrow> Inr (group_add doc_id item grouped_chunks))"

definition is_intlike :: "pyval \<Rightarrow> bool" where
  "is_intlike v = (case v of VInt _ \<Rightarrow> True | VBool _ \<Rightarrow> True | _ \<Rightarrow> False)"

fun int_key :: "pyval \<Rightarrow> int" where
  "int_key (VInt i) = i"
| "int_key (VBool b) = (if b then 1 else 0)"
| "int_key v = 0"

fun str_key :: "pyval \<Rightarrow> string" where
  "str_key (VStr s) = s"
| "str_key v = []"

text \<open>
  \<^verbatim>\<open>chunks.sort(key=lambda x: x[order_key])\<close>. The key of every item is computed first
  (a \<^verbatim>\<open>KeyError\<close> when one is missing), then the items are sorted on the keys by a stable
  sort that compares with \<^verbatim>\<open><\<close>. Integers and booleans compare with each other by value,
  strings with strings by code points; any other comparison raises \<^verbatim>\<open>TypeError\<close>, and a
  list of two or more items cannot be sorted without comparing every item with another.
  A list of at most one item is never compared.
\<close>

definition sort_chunks :: "('a \<Rightarrow> chunk) \<Rightarrow> string \<Rightarrow> 'a list \<Rightarrow> error + 'a list" where
  "sort_chunks rd order_key items =
     (case map_err (\<lambda>x. lookup (rd x) order_key) items of
        Inl e \<Rightarrow> Inl e
      | Inr keys \<Rightarrow>
          if length items \<le> 1 then Inr items
          else if list_all is_intlike keys
            then Inr (map snd (sort_key (\<lambda>kx. int_key (fst kx)) (zip keys items)))
          else if list_all is_str keys
            then Inr (map snd (sort_key (\<lambda>kx. str_key (fst kx)) (zip keys items)))
          else Inl (TypeError ''<''))"

definition formatted_key :: "string \<Rightarrow> string" where
  "formatted_key content_key = content_key @ ''_formatted''"

text \<open>The body of the inner loop: format chunk \<open>i\<close> of the group, copy it, add the field.\<close>

definition chunk_step ::
  "chunk list \<Rightarrow> peripheral_config \<Rightarrow> string \<Rightarrow> string \<Rightarrow> pyval \<Rightarrow> pyval \<Rightarrow>
   chunk list \<Rightarrow> nat \<times> chunk \<Rightarrow> error + chunk list" where
  "chunk_step chunks peripheral content_key order_key main_chunk_start main_chunk_end results ic =
     (case ic of (i, chunk) \<Rightarrow>
        (case format_chunk_with_context chunks i peripheral content_key order_key
                main_chunk_start main_chunk_end of
           Inl e \<Rightarrow> Inl e
         | Inr formatted_chunk \<Rightarrow>
             Inr (results @ [chunk(formatted_key content_key \<mapsto> VStr formatted_chunk)])))"

definition process_group ::
  "peripheral_config \<Rightarrow> string \<Rightarrow> string \<Rightarrow> pyval \<Rightarrow> pyval \<Rightarrow>
   chunk list \<Rightarrow> pyval \<times> chunk list \<Rightarrow> error + chunk list" where
  "process_group peripheral content_key order_key main_chunk_start main_chunk_end results grp =
     (case sort_chunks (\<lambda>c. c) order_key (snd grp) of
        Inl e \<Rightarrow> Inl e
      | Inr chunks \<Rightarrow>
          for_each (chunk_step chunks peripheral content_key order_key main_chunk_start main_chunk_end)
            results (enumerate 0 chunks))"

definition execute :: "config \<Rightarrow> chunk list \<Rightarrow> error + chunk list \<times> real" where
  "execute cfg input_data =
     (case cfg_content_key cfg of
        None \<Rightarrow> Inl (KeyError ''content_key'')
      | Some content_key \<Rightarrow>
     (case cfg_doc_id_key cfg of
        None \<Rightarrow> Inl (KeyError ''doc_id_key'')
      | Some doc_id_key \<Rightarrow>
     (case cfg_order_key cfg of
        None \<Rightarrow> Inl (KeyError ''order_key'')
      | Some order_key \<Rightarrow>
     (case cfg_peripheral_chunks cfg of
        None \<Rightarrow> Inl (KeyError ''peripheral_chunks'')
      | Some peripheral \<Rightarrow>
          (let main_chunk_start = (case cfg_main_chunk_start cfg of
                                     None \<Rightarrow> VStr ''--- Begin Main Chunk ---'' | Some v \<Rightarrow> v);
               main_chunk_end = (case cfg_main_chunk_end cfg of
                                   None \<Rightarrow> VStr ''--- End Main Chunk ---'' | Some v \<Rightarrow> v)
           in case for_each (group_step (\<lambda>c. c) doc_id_key) [] input_data of
                Inl e \<Rightarrow> Inl e
              | Inr grouped_chunks \<Rightarrow>
                  (case for_each (process_group peripheral content_key order_key
                                    main_chunk_start main_chunk_end) [] grouped_chunks of
                     Inl e \<Rightarrow> Inl e
                   | Inr results \<Rightarrow> Inr (results, 0)))))))"

section \<open>Notions used by the properties\<close>

text \<open>The length of the content of a chunk, where the content is a string.\<close>

definition content_len :: "chunk \<Rightarrow> string \<Rightarrow> int" where
  "content_len c k = (case c k of Some (VStr s) \<Rightarrow> int (length s) | _ \<Rightarrow> 0)"

text \<open>A line that shows a chunk starts with \<^verbatim>\<open>[Chunk\<close>; a placeholder line does not.\<close>

definition is_chunk_line :: "string \<Rightarrow> bool" where
  "is_chunk_line l = (take 7 l = ''[Chunk '')"

text \<open>The state of the loop after the lines \<open>ls\<close> of shown chunks have been added.\<close>

definition shown_state :: "loop_state \<Rightarrow> string list \<Rightarrow> loop_state" where
  "shown_state st ls =
     \<lparr>processed_parts = final_parts st @ ls, in_skip = False,
      skip_char_count = (if in_skip st then 0 else skip_char_count st)\<rparr>"

abbreviation bucket_of :: "int \<Rightarrow> int \<Rightarrow> chunk list \<Rightarrow> direction_config \<Rightarrow> nat \<Rightarrow> bucket" where
  "bucket_of h t chunks config i \<equiv> classify h t (int (length chunks)) (has_middle config) (int i)"

text \<open>
  The accounting of skipped characters as the specification words it: the sum of the content
  lengths of the neighbours from index \<open>i\<close> onward.
\<close>

definition remaining_chars :: "chunk list \<Rightarrow> string \<Rightarrow> nat \<Rightarrow> int" where
  "remaining_chars chunks content_key i = (\<Sum>c\<leftarrow>drop i chunks. content_len c content_key)"

text \<open>The number of places of a string where the marker \<open>m\<close> starts.\<close>

fun occurrences :: "string \<Rightarrow> string \<Rightarrow> nat" where
  "occurrences m [] = (if m = [] then 1 else 0)"
| "occurrences m (c # cs) = (if take (length m) (c # cs) = m then 1 else 0) + occurrences m cs"

text \<open>
  Modelled from the spec: the constructor of \<^verbatim>\<open>BaseOperation\<close> (\<^verbatim>\<open>motion/operations/base.py\<close>,
  not among the sources) is the caller of \<^verbatim>\<open>syntax_check\<close>; the specification says that
  validation is "invoked before \<^verbatim>\<open>execute\<close>" and that its failures "prevent any output".
\<close>

definition checked_execute :: "config \<Rightarrow> chunk list \<Rightarrow> error + chunk list \<times> real" where
  "checked_execute cfg input_data =
     (case syntax_check cfg of Inl e \<Rightarrow> Inl e | Inr _ \<Rightarrow> execute cfg input_data)"

text \<open>
  A valid configuration in the words of the specification: the four required keys are
  present, every declared head or tail section of a present direction has a count, and a
  marker that is present is a string.
\<close>

definition section_has_count :: "section_config option \<Rightarrow> bool" where
  "section_has_count sc = (case sc of None \<Rightarrow> True | Some s \<Rightarrow> sec_count s \<noteq> None)"

definition direction_valid :: "direction_config option \<Rightarrow> bool" where
  "direction_valid dc =
     (case dc of None \<Rightarrow> True
      | Some d \<Rightarrow> section_has_count (dir_head d) \<and> section_has_count (dir_tail d))"

definition marker_valid :: "pyval option \<Rightarrow> bool" where
  "marker_valid m = (case m of None \<Rightarrow> True | Some v \<Rightarrow> is_str v)"

definition valid_config :: "config \<Rightarrow> bool" where
  "valid_config cfg =
     (cfg_content_key cfg \<noteq> None \<and> cfg_doc_id_key cfg \<noteq> None \<and> cfg_order_key cfg \<noteq> None \<and>
      (case cfg_peripheral_chunks cfg of
         None \<Rightarrow> False
       | Some p \<Rightarrow> direction_valid (per_previous p) \<and> direction_valid (per_next p)) \<and>
      marker_valid (cfg_main_chunk_start cfg) \<and> marker_valid (cfg_main_chunk_end cfg))"

text \<open>The error \<open>e\<close> names a key that the configuration lacks or holds with the wrong type.\<close>

definition count_missing :: "string \<Rightarrow> string \<Rightarrow> section_config option \<Rightarrow> error \<Rightarrow> bool" where
  "count_missing direction sect sc e =
     (case sc of
        None \<Rightarrow> False
      | Some s \<Rightarrow> sec_count s = None \<and>
          e = ValueError (''Missing '' @ quoted ''count'' @ '' in '' @ direction @ ''.'' @ sect
                          @ '' configuration''))"

definition direction_violation :: "string \<Rightarrow> direction_config option \<Rightarrow> error \<Rightarrow> bool" where
  "direction_violation direction dc e =
     (case dc of
        None \<Rightarrow> False
      | Some d \<Rightarrow> count_missing direction ''head'' (dir_head d) e
                 \<or> count_missing direction ''tail'' (dir_tail d) e)"

definition marker_violation :: "string \<Rightarrow> pyval option \<Rightarrow> error \<Rightarrow> bool" where
  "marker_violation name m e =
     (case m of
        None \<Rightarrow> False
      | Some v \<Rightarrow> \<not> is_str v \<and> e = TypeError (quoted name @ '' must be a string''))"

definition violation :: "config \<Rightarrow> error \<Rightarrow> bool" where
  "violation cfg e =
     ((cfg_content_key cfg = None \<and> e = missing_key ''content_key'') \<or>
      (cfg_doc_id_key cfg = None \<and> e = missing_key ''doc_id_key'') \<or>
      (cfg_order_key cfg = None \<and> e = missing_key ''order_key'') \<or>
      (case cfg_peripheral_chunks cfg of
         None \<Rightarrow> e = ValueError (''Missing '' @ quoted ''peripheral_chunks''
                                  @ '' configuration in GatherOperation'')
       | Some p \<Rightarrow> direction_violation ''previous'' (per_previous p) e
                  \<or> direction_violation ''next'' (per_next p) e) \<or>
      marker_violation ''main_chunk_start'' (cfg_main_chunk_start cfg) e \<or>
      marker_violation ''main_chunk_end'' (cfg_main_chunk_end cfg) e)"

text \<open>The configuration with a function applied to every count that is present.\<close>

definition map_section :: "(count \<Rightarrow> count) \<Rightarrow> section_config \<Rightarrow> section_config" where
  "map_section f sc = sc\<lparr>sec_count := map_option f (sec_count sc)\<rparr>"

definition map_direction :: "(count \<Rightarrow> count) \<Rightarrow> direction_config \<Rightarrow> direction_config" where
  "map_direction f d =
     d\<lparr>dir_head := map_option (map_section f) (dir_head d),
       dir_tail := map_option (map_section f) (dir_tail d)\<rparr>"

definition map_peripheral :: "(count \<Rightarrow> count) \<Rightarrow> peripheral_config \<Rightarrow> peripheral_config" where
  "map_peripheral f p =
     p\<lparr>per_previous := map_option (map_direction f) (per_previous p),
       per_next := map_option (map_direction f) (per_next p)\<rparr>"

definition map_counts :: "(count \<Rightarrow> count) \<Rightarrow> config \<Rightarrow> config" where
  "map_counts f cfg =
     cfg\<lparr>cfg_peripheral_chunks := map_option (map_peripheral f) (cfg_peripheral_chunks cfg)\<rparr>"

text \<open>A value that \<^verbatim>\<open>int()\<close> accepts becomes the integer, any other value stays.\<close>

definition coerce_count :: "count \<Rightarrow> count" where
  "coerce_count v = (case count_int v of Inl _ \<Rightarrow> v | Inr n \<Rightarrow> CScalar (VInt n))"

definition uncoercible :: "section_config option \<Rightarrow> bool" where
  "uncoercible sc = (case section_count sc of Inl _ \<Rightarrow> True | Inr _ \<Rightarrow> False)"

definition direction_uncoercible :: "direction_config option \<Rightarrow> bool" where
  "direction_uncoercible dc =
     (case dc of None \<Rightarrow> False | Some d \<Rightarrow> uncoercible (dir_head d) \<or> uncoercible (dir_tail d))"

definition has_uncoercible_count :: "config \<Rightarrow> bool" where
  "has_uncoercible_count cfg =
     (case cfg_peripheral_chunks cfg of
        None \<Rightarrow> False
      | Some p \<Rightarrow> direction_uncoercible (per_previous p) \<or> direction_uncoercible (per_next p))"



text \<open>The values of a list in the order of their first occurrence.\<close>

fun first_seen :: "'a list \<Rightarrow> 'a list" where
  "first_seen [] = []"
| "first_seen (x # xs) = x # filter (\<lambda>y. y \<noteq> x) (first_seen xs)"








text \<open>Three records of one document, and a window of two at each end.\<close>

definition ex_chunk :: "int \<Rightarrow> string \<Rightarrow> chunk" where
  "ex_chunk n t = [''doc'' \<mapsto> VStr ''d1'', ''n'' \<mapsto> VInt n, ''text'' \<mapsto> VStr t]"

definition ex_chunks :: "chunk list" where
  "ex_chunks = [ex_chunk 1 ''a'', ex_chunk 2 ''bb'', ex_chunk 3 ''ccc'']"

definition ex_count :: "pyval \<Rightarrow> section_config" where
  "ex_count v = \<lparr>sec_count = Some (CScalar v), sec_content_key = None\<rparr>"

definition ex_float_count :: "pyfloat \<Rightarrow> section_config" where
  "ex_float_count x = \<lparr>sec_count = Some (CFloat x), sec_content_key = None\<rparr>"

definition ex_window :: "int \<Rightarrow> int \<Rightarrow> direction_config" where
  "ex_window h t =
     \<lparr>dir_head = Some (ex_count (VInt h)), dir_middle = None, dir_tail = Some (ex_count (VInt t))\<rparr>"

text \<open>A configuration whose only section is the head of the previous direction.\<close>

definition ex_config :: "section_config \<Rightarrow> config" where
  "ex_config head_section =
     \<lparr>cfg_content_key = Some ''text'', cfg_doc_id_key = Some ''doc'', cfg_order_key = Some ''n'',
      cfg_peripheral_chunks = Some
        \<lparr>per_previous = Some \<lparr>dir_head = Some head_section, dir_middle = None, dir_tail = None\<rparr>,
         per_next = None\<rparr>,
      cfg_main_chunk_start = None, cfg_main_chunk_end = None\<rparr>"







text \<open>No context in either direction.\<close>

definition ex_markers :: "peripheral_config" where
  "ex_markers = \<lparr>per_previous = None, per_next = None\<rparr>"

section \<open>Properties of the loop\<close>

lemma for_each_append:
  "for_each body st (xs @ ys) =
     (case for_each body st xs of Inl e \<Rightarrow> Inl e | Inr st' \<Rightarrow> for_each body st' ys)"
  by (induction xs arbitrary: st) (auto split: sum.splits)

lemma skipped_chars_sum:
  "skipped_chars cs ck = Inr T \<Longrightarrow>
     T = (\<Sum>c\<leftarrow>cs. content_len c ck) \<and> (\<forall>c\<in>set cs. \<exists>s. c ck = Some (VStr s))"
proof (induction cs arbitrary: T)
  case Nil
  then show ?case by simp
next
  case (Cons c cs)
  from Cons.prems obtain v n m where
    v: "c ck = Some v" and n: "py_len v = Inr n" and m: "skipped_chars cs ck = Inr m" and T: "T = n + m"
    by (auto simp: lookup_def split: option.splits sum.splits)
  from n obtain s where s: "v = VStr s" "n = int (length s)"
    by (cases v) auto
  from Cons.IH [OF m] v s T show ?case
    by (auto simp: content_len_def)
qed

lemma content_len_nonneg: "0 \<le> content_len c k"
  by (simp add: content_len_def split: option.splits pyval.splits)

lemma chunk_line_is_chunk_line:
  "chunk_line config ck ok sect c = Inr l \<Longrightarrow> is_chunk_line l"
  by (auto simp: chunk_line_def Let_def is_chunk_line_def split: sum.splits)

lemma skip_line_not_chunk_line: "\<not> is_chunk_line (skip_line n)"
  by (simp add: is_chunk_line_def skip_line_def)

text \<open>The loop body, by the bucket of the index.\<close>

lemma loop_body_skipped:
  assumes "classify h t (int (length chunks)) (has_middle config) (int i) = Skipped"
  shows "loop_body chunks config ck ok h t st (i, c) =
           (case skipped_chars chunks ck of
              Inl e \<Rightarrow> Inl e
            | Inr T \<Rightarrow> Inr (st\<lparr>skip_char_count := skip_char_count st + T, in_skip := True\<rparr>))"
  using assms by (auto simp: loop_body_def split: sum.splits if_splits)

lemma loop_body_shown:
  assumes "classify h t (int (length chunks)) (has_middle config) (int i) = b" "b \<noteq> Skipped"
  shows "loop_body chunks config ck ok h t st (i, c) =
           (case chunk_line config ck ok b c of
              Inl e \<Rightarrow> Inl e
            | Inr l \<Rightarrow> Inr (shown_state st [l]))"
  using assms by (cases b) (auto simp: loop_body_def Let_def shown_state_def final_parts_def split: sum.splits if_splits)

lemma shown_state_shown_state: "shown_state (shown_state st ls) ls' = shown_state st (ls @ ls')"
  by (simp add: shown_state_def final_parts_def)

lemma for_each_shown:
  assumes "\<forall>p\<in>set xs. bucket_of h t chunks config (fst p) \<noteq> Skipped"
  shows "for_each (loop_body chunks config ck ok h t) st xs =
           (case map_err (\<lambda>p. chunk_line config ck ok (bucket_of h t chunks config (fst p)) (snd p)) xs of
              Inl e \<Rightarrow> Inl e
            | Inr ls \<Rightarrow> Inr (if xs = [] then st else shown_state st ls))"
  using assms
proof (induction xs arbitrary: st)
  case Nil
  then show ?case by simp
next
  case (Cons p xs)
  obtain i c where p: "p = (i, c)" by (cases p)
  from Cons.prems p have b: "bucket_of h t chunks config i \<noteq> Skipped" by simp
  from Cons.prems have rest: "\<forall>p\<in>set xs. bucket_of h t chunks config (fst p) \<noteq> Skipped" by simp
  show ?case
    by (simp add: p loop_body_shown [OF refl b] Cons.IH [OF rest] shown_state_shown_state
          split: sum.splits)
qed

lemma for_each_skipped:
  assumes "\<forall>p\<in>set xs. bucket_of h t chunks config (fst p) = Skipped" "xs \<noteq> []"
  shows "for_each (loop_body chunks config ck ok h t) st xs =
           (case skipped_chars chunks ck of
              Inl e \<Rightarrow> Inl e
            | Inr T \<Rightarrow> Inr (st\<lparr>skip_char_count := skip_char_count st + int (length xs) * T,
                                in_skip := True\<rparr>))"
  using assms
proof (induction xs arbitrary: st)
  case Nil
  then show ?case by simp
next
  case (Cons p xs)
  obtain i c where p: "p = (i, c)" by (cases p)
  from Cons.prems p have b: "bucket_of h t chunks config i = Skipped" by simp
  show ?case
  proof (cases "xs = []")
    case True
    then show ?thesis by (simp add: p loop_body_skipped [OF b] split: sum.splits)
  next
    case False
    from Cons.prems have rest: "\<forall>p\<in>set xs. bucket_of h t chunks config (fst p) = Skipped" by simp
    show ?thesis
      by (simp add: p loop_body_skipped [OF b] Cons.IH [OF rest False] algebra_simps
            split: sum.splits)
  qed
qed

lemma map_err_cong:
  "(\<And>x. x \<in> set xs \<Longrightarrow> f x = g x) \<Longrightarrow> map_err f xs = map_err g xs"
  by (induction xs) (auto split: sum.splits)

lemma map_err_Inr:
  "map_err f xs = Inr ys \<Longrightarrow> length ys = length xs \<and> (\<forall>i<length xs. f (xs ! i) = Inr (ys ! i))"
proof (induction xs arbitrary: ys)
  case Nil
  then show ?case by simp
next
  case (Cons x xs)
  from Cons.prems obtain y ys' where y: "f x = Inr y" and ys': "map_err f xs = Inr ys'" and ys: "ys = y # ys'"
    by (auto split: sum.splits)
  from Cons.IH [OF ys'] y ys show ?case
    by (auto simp: nth_Cons split: nat.splits)
qed

lemma map_err_set:
  assumes "map_err f xs = Inr ys" "y \<in> set ys"
  shows "\<exists>x\<in>set xs. f x = Inr y"
proof -
  from assms(2) obtain i where i: "i < length ys" "ys ! i = y" by (auto simp: in_set_conv_nth)
  with map_err_Inr [OF assms(1)] have "i < length xs" "f (xs ! i) = Inr y" by auto
  then show ?thesis by (metis nth_mem)
qed

lemma classify_complete:
  assumes "0 \<le> h" "0 \<le> t" "n \<le> h + t" "i < n"
  shows "classify h t n m i = (if i < h then Head else Tail)"
  using assms by (simp add: classify_def)

lemma process_unfold:
  assumes "section_count (dir_head config) = Inr h" "section_count (dir_tail config) = Inr t"
  shows "process_peripheral_chunks chunks config ck ok reverse =
     (case for_each (loop_body (if reverse then rev chunks else chunks) config ck ok h t)
              \<lparr>processed_parts = [], in_skip = False, skip_char_count = 0\<rparr>
              (enumerate 0 (if reverse then rev chunks else chunks)) of
        Inl e \<Rightarrow> Inl e
      | Inr st \<Rightarrow> Inr (if reverse then rev (final_parts st) else final_parts st))"
  using assms by (simp add: process_peripheral_chunks_def Let_def)

lemma final_parts_init_shown:
  "final_parts (if xs = [] then \<lparr>processed_parts = [], in_skip = False, skip_char_count = 0\<rparr>
                else shown_state \<lparr>processed_parts = [], in_skip = False, skip_char_count = 0\<rparr> ls) =
     (if xs = [] then [] else ls)"
  by (simp add: final_parts_def shown_state_def)

text \<open>
  Claim C4. When the head and tail counts are non-negative and their sum is at least the
  number of neighbours, every index is classified as head (when it is below the head count,
  the test that comes first) or else as tail, none is skipped; the function returns the
  lines of the chunks, one per neighbour, or the error of the first chunk that lacks a key,
  and no line of the result is a placeholder \<^verbatim>\<open>[... N characters skipped ...]\<close>.
\<close>

theorem window_complete:
  assumes "section_count (dir_head config) = Inr h" "section_count (dir_tail config) = Inr t"
    and "0 \<le> h" "0 \<le> t" "int (length chunks) \<le> h + t"
  shows "(\<forall>i<length chunks.
            classify h t (int (length chunks)) (has_middle config) (int i)
              = (if int i < h then Head else Tail)) \<and>
         process_peripheral_chunks chunks config ck ok reverse =
           (case map_err (\<lambda>p. chunk_line config ck ok (if int (fst p) < h then Head else Tail) (snd p))
                   (enumerate 0 (if reverse then rev chunks else chunks)) of
              Inl e \<Rightarrow> Inl e
            | Inr ls \<Rightarrow> Inr (if reverse then rev ls else ls)) \<and>
         (\<forall>lines. process_peripheral_chunks chunks config ck ok reverse = Inr lines \<longrightarrow>
            length lines = length chunks \<and>
            (\<forall>l\<in>set lines. is_chunk_line l \<and> (\<forall>N. l \<noteq> skip_line N)))"
proof -
  define cs where "cs = (if reverse then rev chunks else chunks)"
  define f where "f = (\<lambda>p :: nat \<times> chunk. chunk_line config ck ok (if int (fst p) < h then Head else Tail) (snd p))"
  have len: "length cs = length chunks" by (simp add: cs_def)
  have cl: "classify h t (int (length cs)) m (int i) = (if int i < h then Head else Tail)"
    if "i < length cs" for i m
    using classify_complete [OF assms(3,4), of "int (length cs)" "int i"] assms(5) that len by simp
  have shown: "\<forall>p\<in>set (enumerate 0 cs). bucket_of h t cs config (fst p) \<noteq> Skipped"
    by (auto simp: in_set_enumerate_eq cl)
  have same: "map_err (\<lambda>p. chunk_line config ck ok (bucket_of h t cs config (fst p)) (snd p)) (enumerate 0 cs)
                = map_err f (enumerate 0 cs)"
    by (rule map_err_cong) (auto simp: in_set_enumerate_eq cl f_def)
  have eq: "process_peripheral_chunks chunks config ck ok reverse =
              (case map_err f (enumerate 0 cs) of
                 Inl e \<Rightarrow> Inl e
               | Inr ls \<Rightarrow> Inr (if reverse then rev ls else ls))"
    unfolding process_unfold [OF assms(1,2)] cs_def [symmetric]
    by (cases "cs = []")
       (simp_all add: for_each_shown [OF shown] same final_parts_def shown_state_def
          split: sum.splits)
  have lines: "length lines = length chunks \<and> (\<forall>l\<in>set lines. is_chunk_line l \<and> (\<forall>N. l \<noteq> skip_line N))"
    if "process_peripheral_chunks chunks config ck ok reverse = Inr lines" for lines
  proof -
    from that eq obtain ls where ls: "map_err f (enumerate 0 cs) = Inr ls"
      and lines: "lines = (if reverse then rev ls else ls)"
      by (auto split: sum.splits)
    from map_err_Inr [OF ls] have "length ls = length chunks" by (simp add: len)
    moreover have "is_chunk_line l \<and> (\<forall>N. l \<noteq> skip_line N)" if "l \<in> set ls" for l
    proof -
      from map_err_set [OF ls that] have "is_chunk_line l"
        by (auto simp: f_def dest: chunk_line_is_chunk_line)
      then show ?thesis using skip_line_not_chunk_line by auto
    qed
    ultimately show ?thesis using lines by auto
  qed
  from cl len eq lines show ?thesis
    unfolding cs_def f_def by simp
qed

theorem window_complete_witness:
  "section_count (dir_head (ex_window 2 2)) = Inr 2 \<and>
   section_count (dir_tail (ex_window 2 2)) = Inr 2 \<and>
   int (length ex_chunks) \<le> 2 + 2 \<and>
   process_peripheral_chunks ex_chunks (ex_window 2 2) ''text'' ''n'' False
     = Inr [''[Chunk 1] a'', ''[Chunk 2] bb'', ''[Chunk 3] ccc'']"
  using window_complete [of "ex_window 2 2" 2 2 ex_chunks "''text''" "''n''" False]
  by (simp add: section_count_def ex_window_def ex_count_def ex_chunks_def ex_chunk_def
        enumerate_eq_zip chunk_line_def get_section_def lookup_def str_int_def str_nat.simps
        digit_char_def upt_rec)

lemma final_parts_skipped_step:
  "filter is_chunk_line (final_parts (st\<lparr>skip_char_count := n, in_skip := True\<rparr>))
     = filter is_chunk_line (final_parts st)"
  by (simp add: final_parts_def skip_line_not_chunk_line)

lemma final_parts_shown_state: "final_parts (shown_state st ls) = final_parts st @ ls"
  by (simp add: final_parts_def shown_state_def)

lemma for_each_chunk_lines:
  assumes "for_each (loop_body chunks config ck ok h t) st xs = Inr st'"
  shows "\<exists>ls. map_err (\<lambda>p. chunk_line config ck ok (bucket_of h t chunks config (fst p)) (snd p))
                 (filter (\<lambda>p. bucket_of h t chunks config (fst p) \<noteq> Skipped) xs) = Inr ls \<and>
              filter is_chunk_line (final_parts st') = filter is_chunk_line (final_parts st) @ ls"
  using assms
proof (induction xs arbitrary: st)
  case Nil
  then show ?case by simp
next
  case (Cons p xs)
  obtain i c where p: "p = (i, c)" by (cases p)
  from Cons.prems obtain st1 where
    st1: "loop_body chunks config ck ok h t st (i, c) = Inr st1"
    and rest: "for_each (loop_body chunks config ck ok h t) st1 xs = Inr st'"
    by (auto simp: p split: sum.splits)
  from Cons.IH [OF rest] obtain ls where
    ls: "map_err (\<lambda>p. chunk_line config ck ok (bucket_of h t chunks config (fst p)) (snd p))
           (filter (\<lambda>p. bucket_of h t chunks config (fst p) \<noteq> Skipped) xs) = Inr ls"
    and out: "filter is_chunk_line (final_parts st') = filter is_chunk_line (final_parts st1) @ ls"
    by blast
  show ?case
  proof (cases "bucket_of h t chunks config i = Skipped")
    case True
    from st1 have "filter is_chunk_line (final_parts st1) = filter is_chunk_line (final_parts st)"
      by (auto simp: loop_body_skipped [OF True] final_parts_skipped_step split: sum.splits)
    with ls out True show ?thesis by (simp add: p)
  next
    case False
    from st1 obtain l where l: "chunk_line config ck ok (bucket_of h t chunks config i) c = Inr l"
      and s: "st1 = shown_state st [l]"
      by (auto simp: loop_body_shown [OF refl False] split: sum.splits)
    from l have "is_chunk_line l" by (rule chunk_line_is_chunk_line)
    with ls out False l s show ?thesis
      by (simp add: p final_parts_shown_state)
  qed
qed

lemma length_filter_enumerate:
  "length (filter (\<lambda>p. P (fst p)) (enumerate 0 xs)) = length (filter P [0..<length xs])"
proof -
  have "filter P (map fst (enumerate 0 xs)) = map fst (filter (P \<circ> fst) (enumerate 0 xs))"
    by (rule filter_map)
  then have "length (filter P (map fst (enumerate 0 xs))) = length (filter (P \<circ> fst) (enumerate 0 xs))"
    by simp
  then show ?thesis by (simp add: comp_def)
qed

text \<open>
  Claim C5. The classification gives every index one bucket. A run that returns shows each
  index that is not skipped exactly once, as the line of its chunk under its own bucket and in
  the order of the indices, and shows no skipped index: the chunk lines of the result are the
  lines of the indices outside \<open>Skipped\<close>, as many as there are such indices.
\<close>

theorem classification_partition:
  assumes "section_count (dir_head config) = Inr h" "section_count (dir_tail config) = Inr t"
    and "process_peripheral_chunks chunks config ck ok reverse = Inr lines"
  shows "\<exists>ls. map_err (\<lambda>p. chunk_line config ck ok
                         (classify h t (int (length chunks)) (has_middle config) (int (fst p))) (snd p))
                 (filter (\<lambda>p. classify h t (int (length chunks)) (has_middle config) (int (fst p)) \<noteq> Skipped)
                    (enumerate 0 (if reverse then rev chunks else chunks))) = Inr ls \<and>
              filter is_chunk_line lines = (if reverse then rev ls else ls) \<and>
              length (filter is_chunk_line lines) =
                length (filter (\<lambda>i. classify h t (int (length chunks)) (has_middle config) (int i) \<noteq> Skipped)
                          [0..<length chunks])"
proof -
  define cs where "cs = (if reverse then rev chunks else chunks)"
  have len: "length cs = length chunks" by (simp add: cs_def)
  from assms(3) obtain st where
    st: "for_each (loop_body cs config ck ok h t)
           \<lparr>processed_parts = [], in_skip = False, skip_char_count = 0\<rparr> (enumerate 0 cs) = Inr st"
    and lines: "lines = (if reverse then rev (final_parts st) else final_parts st)"
    unfolding process_unfold [OF assms(1,2)] cs_def [symmetric]
    by (auto split: sum.splits)
  from for_each_chunk_lines [OF st] obtain ls where
    ls: "map_err (\<lambda>p. chunk_line config ck ok (bucket_of h t cs config (fst p)) (snd p))
           (filter (\<lambda>p. bucket_of h t cs config (fst p) \<noteq> Skipped) (enumerate 0 cs)) = Inr ls"
    and out: "filter is_chunk_line (final_parts st) = ls"
    by (auto simp: final_parts_def)
  from out lines have fl: "filter is_chunk_line lines = (if reverse then rev ls else ls)"
    by (auto simp: rev_filter)
  from map_err_Inr [OF ls] have "length ls =
      length (filter (\<lambda>p. bucket_of h t cs config (fst p) \<noteq> Skipped) (enumerate 0 cs))"
    by simp
  also have "\<dots> = length (filter (\<lambda>i. bucket_of h t cs config i \<noteq> Skipped) [0..<length cs])"
    by (rule length_filter_enumerate)
  finally have "length (filter is_chunk_line lines)
      = length (filter (\<lambda>i. bucket_of h t cs config i \<noteq> Skipped) [0..<length cs])"
    using fl by simp
  with ls fl show ?thesis
    unfolding len cs_def [symmetric] by blast
qed

theorem classification_partition_witness:
  "section_count (dir_head (ex_window 1 0)) = Inr 1 \<and>
   section_count (dir_tail (ex_window 1 0)) = Inr 0 \<and>
   process_peripheral_chunks ex_chunks (ex_window 1 0) ''text'' ''n'' False
     = Inr [''[Chunk 1] a'', ''[... 12 characters skipped ...]''] \<and>
   filter is_chunk_line [''[Chunk 1] a'', ''[... 12 characters skipped ...]''] = [''[Chunk 1] a''] \<and>
   filter (\<lambda>i. classify 1 0 (int (length ex_chunks)) (has_middle (ex_window 1 0)) (int i) \<noteq> Skipped)
     [0..<length ex_chunks] = [0]"
proof -
  have run: "process_peripheral_chunks ex_chunks (ex_window 1 0) ''text'' ''n'' False
     = Inr [''[Chunk 1] a'', ''[... 12 characters skipped ...]'']"
    by (simp add: process_peripheral_chunks_def section_count_def ex_window_def ex_count_def
          ex_chunks_def ex_chunk_def enumerate_eq_zip upt_rec loop_body_def classify_def
          has_middle_def chunk_line_def get_section_def lookup_def str_int_def str_nat.simps
          digit_char_def final_parts_def skip_line_def)
  have hyps: "section_count (dir_head (ex_window 1 0)) = Inr 1"
    "section_count (dir_tail (ex_window 1 0)) = Inr 0"
    by (simp_all add: section_count_def ex_window_def ex_count_def)
  from classification_partition [OF hyps run] hyps run show ?thesis
    by (simp add: is_chunk_line_def ex_chunks_def upt_rec classify_def has_middle_def ex_window_def)
qed

lemma map_err_eq_Inr: "map_err f xs = Inr ys \<longleftrightarrow> map f xs = map Inr ys"
proof (induction xs arbitrary: ys)
  case Nil
  then show ?case by auto
next
  case (Cons x xs)
  show ?case
  proof (cases ys)
    case Nil
    then show ?thesis by (auto split: sum.splits)
  next
    case (Cons y ys')
    then show ?thesis using Cons.IH [of ys'] by (auto split: sum.splits)
  qed
qed

lemma map_err_rev: "map_err f (rev xs) = Inr ys \<Longrightarrow> map_err f xs = Inr (rev ys)"
  unfolding map_err_eq_Inr by (metis rev_map rev_rev_ident)

lemma map_err_map: "map_err f (map g xs) = map_err (\<lambda>x. f (g x)) xs"
  by (induction xs) (auto split: sum.splits)

lemma enumerate_rev:
  "enumerate 0 (rev xs) = rev (map (\<lambda>p. (length xs - 1 - fst p, snd p)) (enumerate 0 xs))"
  by (rule nth_equalityI) (auto simp: rev_nth nth_enumerate_eq)

text \<open>
  Claim C6. With \<^verbatim>\<open>reverse=True\<close> the result is the reversal of the lines of the pass without
  reversal over the reversed list. The chunk lines of the result then stand in the order of
  the list as it was given (the reading order of the document), each chunk under the bucket
  of its distance from the end of the list.
\<close>

theorem reverse_presentation:
  "process_peripheral_chunks chunks config ck ok True =
     (case process_peripheral_chunks (rev chunks) config ck ok False of
        Inl e \<Rightarrow> Inl e
      | Inr ls \<Rightarrow> Inr (rev ls)) \<and>
   (\<forall>h t lines.
      section_count (dir_head config) = Inr h \<and> section_count (dir_tail config) = Inr t \<and>
      process_peripheral_chunks chunks config ck ok True = Inr lines \<longrightarrow>
      map_err (\<lambda>p. chunk_line config ck ok
                 (classify h t (int (length chunks)) (has_middle config)
                    (int (length chunks - 1 - fst p))) (snd p))
        (filter (\<lambda>p. classify h t (int (length chunks)) (has_middle config)
                       (int (length chunks - 1 - fst p)) \<noteq> Skipped)
           (enumerate 0 chunks))
        = Inr (filter is_chunk_line lines))"
proof (intro conjI allI impI)
  show "process_peripheral_chunks chunks config ck ok True =
     (case process_peripheral_chunks (rev chunks) config ck ok False of
        Inl e \<Rightarrow> Inl e
      | Inr ls \<Rightarrow> Inr (rev ls))"
    by (simp add: process_peripheral_chunks_def Let_def split: sum.splits)
next
  fix h t lines
  assume a: "section_count (dir_head config) = Inr h \<and> section_count (dir_tail config) = Inr t \<and>
      process_peripheral_chunks chunks config ck ok True = Inr lines"
  define n where "n = length chunks"
  define b where "b = (\<lambda>i::nat. classify h t (int n) (has_middle config) (int i))"
  define g where "g = (\<lambda>p :: nat \<times> chunk. (n - 1 - fst p, snd p))"
  from a have cnt: "section_count (dir_head config) = Inr h" "section_count (dir_tail config) = Inr t"
    and run: "process_peripheral_chunks chunks config ck ok True = Inr lines"
    by simp_all
  from run obtain st where
    st: "for_each (loop_body (rev chunks) config ck ok h t)
           \<lparr>processed_parts = [], in_skip = False, skip_char_count = 0\<rparr> (enumerate 0 (rev chunks)) = Inr st"
    and lines: "lines = rev (final_parts st)"
    unfolding process_unfold [OF cnt]
    by (auto split: sum.splits)
  from for_each_chunk_lines [OF st] obtain ls where
    ls: "map_err (\<lambda>p. chunk_line config ck ok (b (fst p)) (snd p))
           (filter (\<lambda>p. b (fst p) \<noteq> Skipped) (enumerate 0 (rev chunks))) = Inr ls"
    and out: "filter is_chunk_line (final_parts st) = ls"
    by (auto simp: final_parts_def b_def n_def)
  have "filter (\<lambda>p. b (fst p) \<noteq> Skipped) (enumerate 0 (rev chunks))
          = rev (map g (filter (\<lambda>p. b (n - 1 - fst p) \<noteq> Skipped) (enumerate 0 chunks)))"
    by (simp add: enumerate_rev rev_filter [symmetric] filter_map comp_def g_def n_def)
  with ls have "map_err (\<lambda>p. chunk_line config ck ok (b (fst p)) (snd p))
      (map g (filter (\<lambda>p. b (n - 1 - fst p) \<noteq> Skipped) (enumerate 0 chunks))) = Inr (rev ls)"
    by (simp add: map_err_rev)
  then have "map_err (\<lambda>p. chunk_line config ck ok (b (n - 1 - fst p)) (snd p))
      (filter (\<lambda>p. b (n - 1 - fst p) \<noteq> Skipped) (enumerate 0 chunks)) = Inr (rev ls)"
    by (simp add: map_err_map g_def)
  moreover from out lines have "filter is_chunk_line lines = rev ls"
    by (auto simp: rev_filter [symmetric])
  ultimately show "map_err (\<lambda>p. chunk_line config ck ok
                 (classify h t (int (length chunks)) (has_middle config)
                    (int (length chunks - 1 - fst p))) (snd p))
        (filter (\<lambda>p. classify h t (int (length chunks)) (has_middle config)
                       (int (length chunks - 1 - fst p)) \<noteq> Skipped)
           (enumerate 0 chunks))
        = Inr (filter is_chunk_line lines)"
    by (simp add: b_def n_def)
qed

theorem reverse_presentation_witness:
  "section_count (dir_head (ex_window 1 0)) = Inr 1 \<and>
   section_count (dir_tail (ex_window 1 0)) = Inr 0 \<and>
   process_peripheral_chunks ex_chunks (ex_window 1 0) ''text'' ''n'' True
     = Inr [''[... 12 characters skipped ...]'', ''[Chunk 3] ccc''] \<and>
   map_err (\<lambda>p. chunk_line (ex_window 1 0) ''text'' ''n''
                 (classify 1 0 (int (length ex_chunks)) (has_middle (ex_window 1 0))
                    (int (length ex_chunks - 1 - fst p))) (snd p))
        (filter (\<lambda>p. classify 1 0 (int (length ex_chunks)) (has_middle (ex_window 1 0))
                       (int (length ex_chunks - 1 - fst p)) \<noteq> Skipped)
           (enumerate 0 ex_chunks))
     = Inr [''[Chunk 3] ccc'']"
proof -
  have run: "process_peripheral_chunks ex_chunks (ex_window 1 0) ''text'' ''n'' True
     = Inr [''[... 12 characters skipped ...]'', ''[Chunk 3] ccc'']"
    by (simp add: process_peripheral_chunks_def section_count_def ex_window_def ex_count_def
          ex_chunks_def ex_chunk_def enumerate_eq_zip upt_rec loop_body_def classify_def
          has_middle_def chunk_line_def get_section_def lookup_def str_int_def str_nat.simps
          digit_char_def final_parts_def skip_line_def)
  have hyps: "section_count (dir_head (ex_window 1 0)) = Inr 1"
    "section_count (dir_tail (ex_window 1 0)) = Inr 0"
    by (simp_all add: section_count_def ex_window_def ex_count_def)
  have flt: "filter is_chunk_line [''[... 12 characters skipped ...]'', ''[Chunk 3] ccc'']
               = [''[Chunk 3] ccc'']"
    by (simp add: is_chunk_line_def)
  note r = reverse_presentation [of ex_chunks "ex_window 1 0" "''text''" "''n''",
      THEN conjunct2, rule_format, OF conjI [OF hyps(1) conjI [OF hyps(2) run]]]
  from r hyps run show ?thesis
    unfolding flt by simp
qed

lemma enumerate_split3:
  assumes "a + k \<le> length cs"
  shows "enumerate 0 cs = enumerate 0 (take a cs) @ enumerate a (take k (drop a cs))
                           @ enumerate (a + k) (drop (a + k) cs)"
proof -
  have "cs = take a cs @ take k (drop a cs) @ drop (a + k) cs"
    by (metis append_take_drop_id drop_drop add.commute)
  then have "enumerate 0 cs = enumerate 0 (take a cs @ take k (drop a cs) @ drop (a + k) cs)"
    by simp
  also have "\<dots> = enumerate 0 (take a cs) @ enumerate a (take k (drop a cs))
                           @ enumerate (a + k) (drop (a + k) cs)"
    using assms by (simp add: enumerate_append_eq min_def)
  finally show ?thesis .
qed

lemma map_err_snd_enumerate: "map_err (\<lambda>p. f (snd p)) (enumerate n xs) = map_err f xs"
  using map_err_map [of f snd "enumerate n xs"] by simp

lemma process_skip_run:
  assumes cnt: "section_count (dir_head config) = Inr h" "section_count (dir_tail config) = Inr t"
    and nomid: "\<not> has_middle config"
    and pos: "0 \<le> h" "0 \<le> t" "h + t < int (length chunks)"
  shows "process_peripheral_chunks chunks config ck ok reverse =
     (let cs = (if reverse then rev chunks else chunks);
          k = length chunks - nat h - nat t
      in case map_err (chunk_line config ck ok Head) (take (nat h) cs) of
           Inl e \<Rightarrow> Inl e
         | Inr heads \<Rightarrow>
        (case skipped_chars cs ck of
           Inl e \<Rightarrow> Inl e
         | Inr T \<Rightarrow>
        (case map_err (chunk_line config ck ok Tail) (drop (nat h + k) cs) of
           Inl e \<Rightarrow> Inl e
         | Inr tails \<Rightarrow>
             Inr (if reverse then rev (heads @ [skip_line (int k * T)] @ tails)
                  else heads @ [skip_line (int k * T)] @ tails))))"
proof -
  define cs where "cs = (if reverse then rev chunks else chunks)"
  define a where "a = nat h"
  define k where "k = length chunks - nat h - nat t"
  define A where "A = enumerate 0 (take a cs)"
  define B where "B = enumerate a (take k (drop a cs))"
  define C where "C = enumerate (a + k) (drop (a + k) cs)"
  define body where "body = loop_body cs config ck ok h t"
  define st0 where "st0 = \<lparr>processed_parts = [], in_skip = False, skip_char_count = 0\<rparr>"
  have len: "length cs = length chunks" by (simp add: cs_def)
  have ak: "a + k \<le> length cs" "0 < k" "int a = h" "int (a + k) = int (length cs) - t"
    using pos by (auto simp: a_def k_def len)
  have split: "enumerate 0 cs = A @ B @ C"
    unfolding A_def B_def C_def by (rule enumerate_split3 [OF ak(1)])
  have bA: "bucket_of h t cs config (fst p) = Head" if "p \<in> set A" for p
    using that ak by (auto simp: A_def in_set_enumerate_eq classify_def)
  have bB: "bucket_of h t cs config (fst p) = Skipped" if "p \<in> set B" for p
    using that ak nomid by (auto simp: B_def in_set_enumerate_eq classify_def)
  have bC: "bucket_of h t cs config (fst p) = Tail" if "p \<in> set C" for p
    using that ak pos by (auto simp: C_def in_set_enumerate_eq classify_def)
  have Bne: "B \<noteq> []" "length B = k"
    using ak by (auto simp: B_def enumerate_eq_zip)
  have runA: "for_each body st0 A =
      (case map_err (chunk_line config ck ok Head) (take a cs) of
         Inl e \<Rightarrow> Inl e | Inr ls \<Rightarrow> Inr (if A = [] then st0 else shown_state st0 ls))"
  proof -
    have "map_err (\<lambda>p. chunk_line config ck ok (bucket_of h t cs config (fst p)) (snd p)) A
            = map_err (\<lambda>p. chunk_line config ck ok Head (snd p)) A"
      by (rule map_err_cong) (simp add: bA)
    also have "\<dots> = map_err (chunk_line config ck ok Head) (take a cs)"
      unfolding A_def by (rule map_err_snd_enumerate)
    finally show ?thesis
      unfolding body_def using for_each_shown [of A h t cs config ck ok st0] bA by simp
  qed
  have runB: "for_each body st B =
      (case skipped_chars cs ck of
         Inl e \<Rightarrow> Inl e
       | Inr T \<Rightarrow> Inr (st\<lparr>skip_char_count := skip_char_count st + int k * T, in_skip := True\<rparr>))" for st
    unfolding body_def Bne(2) [symmetric]
    by (rule for_each_skipped) (use bB Bne(1) in auto)
  have runC: "for_each body st C =
      (case map_err (chunk_line config ck ok Tail) (drop (a + k) cs) of
         Inl e \<Rightarrow> Inl e | Inr ls \<Rightarrow> Inr (if C = [] then st else shown_state st ls))" for st
  proof -
    have "map_err (\<lambda>p. chunk_line config ck ok (bucket_of h t cs config (fst p)) (snd p)) C
            = map_err (\<lambda>p. chunk_line config ck ok Tail (snd p)) C"
      by (rule map_err_cong) (simp add: bC)
    also have "\<dots> = map_err (chunk_line config ck ok Tail) (drop (a + k) cs)"
      unfolding C_def by (rule map_err_snd_enumerate)
    finally show ?thesis
      unfolding body_def using for_each_shown [of C h t cs config ck ok st] bC by simp
  qed
  have fin: "final_parts (if C = [] then st1 else shown_state st1 tails)
               = heads @ [skip_line (int k * T)] @ tails"
    if "st1 = (if A = [] then st0 else shown_state st0 heads)
                \<lparr>skip_char_count := skip_char_count (if A = [] then st0 else shown_state st0 heads) + int k * T,
                 in_skip := True\<rparr>"
      and "A = [] \<Longrightarrow> heads = []" and "C = [] \<Longrightarrow> tails = []"
    for st1 heads tails T
    using that by (auto simp: final_parts_def shown_state_def st0_def)
  have emptyA: "heads = []" if "map_err (chunk_line config ck ok Head) (take a cs) = Inr heads" "A = []" for heads
  proof -
    from that(2) have "take a cs = []" unfolding A_def by (metis length_enumerate length_0_conv)
    with that(1) show ?thesis by (simp del: take_eq_Nil)
  qed
  have emptyC: "tails = []" if "map_err (chunk_line config ck ok Tail) (drop (a + k) cs) = Inr tails" "C = []" for tails
  proof -
    from that(2) have "drop (a + k) cs = []" unfolding C_def by (metis length_enumerate length_0_conv)
    with that(1) show ?thesis by (simp del: drop_eq_Nil)
  qed
  have unf: "process_peripheral_chunks chunks config ck ok reverse =
      (case for_each body st0 (enumerate 0 cs) of
         Inl e \<Rightarrow> Inl e
       | Inr st \<Rightarrow> Inr (if reverse then rev (final_parts st) else final_parts st))"
    unfolding process_unfold [OF cnt] cs_def body_def st0_def ..
  have main: "process_peripheral_chunks chunks config ck ok reverse =
     (case map_err (chunk_line config ck ok Head) (take a cs) of
           Inl e \<Rightarrow> Inl e
         | Inr heads \<Rightarrow>
        (case skipped_chars cs ck of
           Inl e \<Rightarrow> Inl e
         | Inr T \<Rightarrow>
        (case map_err (chunk_line config ck ok Tail) (drop (a + k) cs) of
           Inl e \<Rightarrow> Inl e
         | Inr tails \<Rightarrow>
             Inr (if reverse then rev (heads @ [skip_line (int k * T)] @ tails)
                  else heads @ [skip_line (int k * T)] @ tails))))"
  proof (cases "map_err (chunk_line config ck ok Head) (take a cs)")
    case (Inl e)
    then show ?thesis by (simp add: unf split for_each_append runA)
  next
    case heads: (Inr heads)
    define stA where "stA = (if A = [] then st0 else shown_state st0 heads)"
    have A: "for_each body st0 A = Inr stA" by (simp add: runA heads stA_def)
    show ?thesis
    proof (cases "skipped_chars cs ck")
      case (Inl e)
      then show ?thesis by (simp add: unf split for_each_append A runB heads)
    next
      case T: (Inr T)
      define stB where "stB = stA\<lparr>skip_char_count := skip_char_count stA + int k * T, in_skip := True\<rparr>"
      have B: "for_each body stA B = Inr stB" by (simp add: runB T stB_def)
      show ?thesis
      proof (cases "map_err (chunk_line config ck ok Tail) (drop (a + k) cs)")
        case (Inl e)
        then show ?thesis by (simp add: unf split for_each_append A B runC heads T)
      next
        case tails: (Inr tails)
        have "final_parts (if C = [] then stB else shown_state stB tails)
                = heads @ [skip_line (int k * T)] @ tails"
          by (rule fin) (use emptyA [OF heads] emptyC [OF tails] in \<open>simp_all add: stB_def stA_def\<close>)
        then show ?thesis by (simp add: unf split for_each_append A B runC heads T tails)
      qed
    qed
  qed
  from main show ?thesis unfolding Let_def cs_def a_def k_def .
qed

lemma sum_list_split:
  "(\<Sum>x\<leftarrow>xs. (f x :: int)) = (\<Sum>x\<leftarrow>take a xs. f x) + (\<Sum>x\<leftarrow>drop a xs. f x)"
proof -
  have "(\<Sum>x\<leftarrow>xs. f x) = (\<Sum>x\<leftarrow>take a xs @ drop a xs. f x)" by simp
  also have "\<dots> = (\<Sum>x\<leftarrow>take a xs. f x) + (\<Sum>x\<leftarrow>drop a xs. f x)"
    by (simp only: map_append sum_list_append)
  finally show ?thesis .
qed

lemma sum_list_middle_le:
  assumes "\<And>x. 0 \<le> f x"
  shows "(\<Sum>x\<leftarrow>take k (drop a xs). f x) \<le> (\<Sum>x\<leftarrow>xs. (f x :: int))"
proof -
  have "(\<Sum>x\<leftarrow>xs. f x) = (\<Sum>x\<leftarrow>take a xs. f x) + (\<Sum>x\<leftarrow>drop a xs. f x)"
    by (rule sum_list_split)
  moreover have "(\<Sum>x\<leftarrow>drop a xs. f x)
      = (\<Sum>x\<leftarrow>take k (drop a xs). f x) + (\<Sum>x\<leftarrow>drop k (drop a xs). f x)"
    by (rule sum_list_split)
  moreover have "0 \<le> (\<Sum>x\<leftarrow>take a xs. f x)" "0 \<le> (\<Sum>x\<leftarrow>drop k (drop a xs). f x)"
    using assms by (auto intro!: sum_list_nonneg)
  ultimately show ?thesis by linarith
qed

lemma bind_InrE:
  assumes "(case x of Inl e \<Rightarrow> Inl e | Inr v \<Rightarrow> f v) = Inr r"
  obtains v where "x = Inr v" "f v = Inr r"
  using assms by (cases x) auto

text \<open>
  The accumulator of skipped characters as the program computes it. Without a middle section
  and with non-negative counts that leave at least one neighbour out, every skipped index
  adds to the accumulator the sum \<open>T\<close> of the content lengths of all neighbours of the list;
  the result is the head lines, one placeholder with the count \<open>k * T\<close> for the \<open>k\<close>
  skipped chunks, and the tail lines; the plain sum of the lengths of the skipped chunks is
  at most \<open>T\<close>, and it is below the reported count when \<open>k\<close> is at least two and \<open>T\<close> is
  positive.
\<close>

lemma skip_count_accounting:
  assumes cnt: "section_count (dir_head config) = Inr h" "section_count (dir_tail config) = Inr t"
    and nomid: "\<not> has_middle config"
    and pos: "0 \<le> h" "0 \<le> t" "h + t < int (length chunks)"
    and run: "process_peripheral_chunks chunks config ck ok reverse = Inr lines"
  shows "let cs = (if reverse then rev chunks else chunks);
             k = length chunks - nat h - nat t;
             plain = (\<Sum>c\<leftarrow>take k (drop (nat h) cs). content_len c ck)
         in \<exists>T heads tails.
              skipped_chars cs ck = Inr T \<and> T = (\<Sum>c\<leftarrow>cs. content_len c ck) \<and>
              (\<forall>i c st. classify h t (int (length cs)) (has_middle config) (int i) = Skipped \<longrightarrow>
                 loop_body cs config ck ok h t st (i, c)
                   = Inr (st\<lparr>skip_char_count := skip_char_count st + T, in_skip := True\<rparr>)) \<and>
              lines = (if reverse then rev (heads @ [skip_line (int k * T)] @ tails)
                       else heads @ [skip_line (int k * T)] @ tails) \<and>
              length heads = nat h \<and> length tails = nat t \<and>
              plain \<le> T \<and> (2 \<le> k \<and> 0 < T \<longrightarrow> plain < int k * T)"
proof -
  define cs where "cs = (if reverse then rev chunks else chunks)"
  define k where "k = length chunks - nat h - nat t"
  define plain where "plain = (\<Sum>c\<leftarrow>take k (drop (nat h) cs). content_len c ck)"
  have len: "length cs = length chunks" by (simp add: cs_def)
  have eq: "process_peripheral_chunks chunks config ck ok reverse =
     (case map_err (chunk_line config ck ok Head) (take (nat h) cs) of
           Inl e \<Rightarrow> Inl e
         | Inr heads \<Rightarrow>
        (case skipped_chars cs ck of
           Inl e \<Rightarrow> Inl e
         | Inr T \<Rightarrow>
        (case map_err (chunk_line config ck ok Tail) (drop (nat h + k) cs) of
           Inl e \<Rightarrow> Inl e
         | Inr tails \<Rightarrow>
             Inr (if reverse then rev (heads @ [skip_line (int k * T)] @ tails)
                  else heads @ [skip_line (int k * T)] @ tails))))"
    using process_skip_run [OF cnt nomid pos, of ck ok reverse]
    unfolding Let_def cs_def k_def .
  from run [unfolded eq] obtain heads where
    heads: "map_err (chunk_line config ck ok Head) (take (nat h) cs) = Inr heads"
    and r1: "(case skipped_chars cs ck of
           Inl e \<Rightarrow> Inl e
         | Inr T \<Rightarrow>
        (case map_err (chunk_line config ck ok Tail) (drop (nat h + k) cs) of
           Inl e \<Rightarrow> Inl e
         | Inr tails \<Rightarrow>
             Inr (if reverse then rev (heads @ [skip_line (int k * T)] @ tails)
                  else heads @ [skip_line (int k * T)] @ tails))) = Inr lines"
    by (rule bind_InrE)
  from r1 obtain T where T: "skipped_chars cs ck = Inr T"
    and r2: "(case map_err (chunk_line config ck ok Tail) (drop (nat h + k) cs) of
           Inl e \<Rightarrow> Inl e
         | Inr tails \<Rightarrow>
             Inr (if reverse then rev (heads @ [skip_line (int k * T)] @ tails)
                  else heads @ [skip_line (int k * T)] @ tails)) = Inr lines"
    by (rule bind_InrE)
  from r2 obtain tails where
    tails: "map_err (chunk_line config ck ok Tail) (drop (nat h + k) cs) = Inr tails"
    and r3: "Inr (if reverse then rev (heads @ [skip_line (int k * T)] @ tails)
                  else heads @ [skip_line (int k * T)] @ tails) = (Inr lines :: error + string list)"
    by (rule bind_InrE)
  from r3 have lines: "lines = (if reverse then rev (heads @ [skip_line (int k * T)] @ tails)
                         else heads @ [skip_line (int k * T)] @ tails)"
    by (simp only: sum.inject)
  from skipped_chars_sum [OF T] have sum: "T = (\<Sum>c\<leftarrow>cs. content_len c ck)" by simp
  have step: "loop_body cs config ck ok h t st (i, c)
                = Inr (st\<lparr>skip_char_count := skip_char_count st + T, in_skip := True\<rparr>)"
    if "classify h t (int (length cs)) (has_middle config) (int i) = Skipped" for i c st
    by (simp add: loop_body_skipped [OF that] T)
  have lh: "length heads = nat h"
    using map_err_Inr [OF heads] pos len by simp
  have lt: "length tails = nat t"
    using map_err_Inr [OF tails] pos len by (simp add: k_def)
  have le: "plain \<le> T"
    unfolding plain_def sum by (rule sum_list_middle_le) (rule content_len_nonneg)
  have lt2: "plain < int k * T" if "2 \<le> k" "0 < T"
  proof -
    from that have "2 * T \<le> int k * T" by simp
    with le that show ?thesis by linarith
  qed
  have "skipped_chars cs ck = Inr T \<and> T = (\<Sum>c\<leftarrow>cs. content_len c ck) \<and>
        (\<forall>i c st. classify h t (int (length cs)) (has_middle config) (int i) = Skipped \<longrightarrow>
           loop_body cs config ck ok h t st (i, c)
             = Inr (st\<lparr>skip_char_count := skip_char_count st + T, in_skip := True\<rparr>)) \<and>
        lines = (if reverse then rev (heads @ [skip_line (int k * T)] @ tails)
                 else heads @ [skip_line (int k * T)] @ tails) \<and>
        length heads = nat h \<and> length tails = nat t \<and>
        plain \<le> T \<and> (2 \<le> k \<and> 0 < T \<longrightarrow> plain < int k * T)"
  proof (intro conjI allI impI)
    show "skipped_chars cs ck = Inr T" by fact
    show "T = (\<Sum>c\<leftarrow>cs. content_len c ck)" by fact
    show "lines = (if reverse then rev (heads @ [skip_line (int k * T)] @ tails)
                 else heads @ [skip_line (int k * T)] @ tails)" by fact
    show "length heads = nat h" by fact
    show "length tails = nat t" by fact
    show "plain \<le> T" by fact
    show "plain < int k * T" if "2 \<le> k \<and> 0 < T" using that lt2 by simp
    show "loop_body cs config ck ok h t st (i, c)
             = Inr (st\<lparr>skip_char_count := skip_char_count st + T, in_skip := True\<rparr>)"
      if "classify h t (int (length cs)) (has_middle config) (int i) = Skipped" for i c st
      using that by (rule step)
  qed
  then have "\<exists>T heads tails. skipped_chars cs ck = Inr T \<and> T = (\<Sum>c\<leftarrow>cs. content_len c ck) \<and>
        (\<forall>i c st. classify h t (int (length cs)) (has_middle config) (int i) = Skipped \<longrightarrow>
           loop_body cs config ck ok h t st (i, c)
             = Inr (st\<lparr>skip_char_count := skip_char_count st + T, in_skip := True\<rparr>)) \<and>
        lines = (if reverse then rev (heads @ [skip_line (int k * T)] @ tails)
                 else heads @ [skip_line (int k * T)] @ tails) \<and>
        length heads = nat h \<and> length tails = nat t \<and>
        plain \<le> T \<and> (2 \<le> k \<and> 0 < T \<longrightarrow> plain < int k * T)"
    by (intro exI)
  then show ?thesis
    unfolding Let_def plain_def k_def cs_def .
qed

lemma skip_count_accounting_example:
  "section_count (dir_head (ex_window 1 0)) = Inr 1 \<and>
   section_count (dir_tail (ex_window 1 0)) = Inr 0 \<and>
   \<not> has_middle (ex_window 1 0) \<and> 1 + 0 < int (length ex_chunks) \<and>
   process_peripheral_chunks ex_chunks (ex_window 1 0) ''text'' ''n'' False
     = Inr [''[Chunk 1] a'', ''[... 12 characters skipped ...]''] \<and>
   skipped_chars ex_chunks ''text'' = Inr 6 \<and>
   (\<Sum>c\<leftarrow>take 2 (drop 1 ex_chunks). content_len c ''text'') = 5"
proof -
  have run: "process_peripheral_chunks ex_chunks (ex_window 1 0) ''text'' ''n'' False
     = Inr [''[Chunk 1] a'', ''[... 12 characters skipped ...]'']"
    by (simp add: process_peripheral_chunks_def section_count_def ex_window_def ex_count_def
          ex_chunks_def ex_chunk_def enumerate_eq_zip upt_rec loop_body_def classify_def
          has_middle_def chunk_line_def get_section_def lookup_def str_int_def str_nat.simps
          digit_char_def final_parts_def skip_line_def)
  have hyps: "section_count (dir_head (ex_window 1 0)) = Inr 1"
    "section_count (dir_tail (ex_window 1 0)) = Inr 0" "\<not> has_middle (ex_window 1 0)"
    "(0::int) \<le> 1" "(0::int) \<le> 0" "1 + 0 < int (length ex_chunks)"
    by (simp_all add: section_count_def ex_window_def ex_count_def has_middle_def ex_chunks_def)
  from skip_count_accounting [OF hyps run] hyps run show ?thesis
    by (simp add: ex_chunks_def ex_chunk_def lookup_def content_len_def)
qed

text \<open>
  Claim C1. The program does not compute the count that the claim describes, nor the one
  that the comment above the sum announces (\<^verbatim>\<open># Show number of characters skipped\<close>). With
  the neighbours \<^verbatim>\<open>a\<close>, \<^verbatim>\<open>bb\<close>, \<^verbatim>\<open>ccc\<close>, one head chunk and no tail or middle chunk, the
  indices 1 and 2 are skipped. Each of them adds 6 to the accumulator, the sum of the
  content lengths of the whole list, the shown head chunk included, and the placeholder
  reports 12. The sum over the neighbours from the index onward is 5 at index 1 and 3 at
  index 2, which would report 8; the skipped chunks hold 5 characters.
\<close>

theorem skip_count_failing_input:
  "classify 1 0 (int (length ex_chunks)) (has_middle (ex_window 1 0)) 1 = Skipped \<and>
   classify 1 0 (int (length ex_chunks)) (has_middle (ex_window 1 0)) 2 = Skipped \<and>
   loop_body ex_chunks (ex_window 1 0) ''text'' ''n'' 1 0
       \<lparr>processed_parts = [''[Chunk 1] a''], in_skip = False, skip_char_count = 0\<rparr>
       (1, ex_chunks ! 1)
     = Inr \<lparr>processed_parts = [''[Chunk 1] a''], in_skip = True, skip_char_count = 6\<rparr> \<and>
   loop_body ex_chunks (ex_window 1 0) ''text'' ''n'' 1 0
       \<lparr>processed_parts = [''[Chunk 1] a''], in_skip = True, skip_char_count = 6\<rparr>
       (2, ex_chunks ! 2)
     = Inr \<lparr>processed_parts = [''[Chunk 1] a''], in_skip = True, skip_char_count = 12\<rparr> \<and>
   process_peripheral_chunks ex_chunks (ex_window 1 0) ''text'' ''n'' False
     = Inr [''[Chunk 1] a'', ''[... 12 characters skipped ...]''] \<and>
   remaining_chars ex_chunks ''text'' 1 = 5 \<and>
   remaining_chars ex_chunks ''text'' 2 = 3 \<and>
   (\<Sum>c\<leftarrow>take 2 (drop 1 ex_chunks). content_len c ''text'') = 5"
  by (simp add: process_peripheral_chunks_def section_count_def ex_window_def ex_count_def
        ex_chunks_def ex_chunk_def enumerate_eq_zip upt_rec loop_body_def classify_def
        has_middle_def chunk_line_def get_section_def lookup_def str_int_def str_nat.simps
        digit_char_def final_parts_def skip_line_def remaining_chars_def content_len_def)

section \<open>Properties of the assembled context\<close>

lemma occurrences_append_ge: "occurrences m ys \<le> occurrences m (xs @ ys)"
  by (induction xs) auto

lemma occurrences_prefix: "1 \<le> occurrences m (m @ post)"
proof (cases "m @ post")
  case Nil
  then show ?thesis by simp
next
  case (Cons a l)
  have "take (length m) (m @ post) = m" by simp
  then have "take (length m) (a # l) = m" by (simp only: Cons)
  then show ?thesis unfolding Cons by simp
qed

lemma occurrences_middle: "1 \<le> occurrences m (pre @ m @ post)"
  using occurrences_prefix [of m post] occurrences_append_ge [of m "m @ post" pre] by linarith

lemma join_append:
  "xs \<noteq> [] \<Longrightarrow> ys \<noteq> [] \<Longrightarrow> join sep (xs @ ys) = join sep xs @ sep @ join sep ys"
proof (induction sep xs rule: join.induct)
  case (1 sep)
  then show ?case by simp
next
  case (2 sep x)
  then show ?case by (cases ys) auto
next
  case (3 sep x y ys')
  then show ?case by simp
qed

text \<open>
  Claim C7, as amended. The string returned for the chunk at an index of the group is the
  previous section, then the start marker, a newline, the content of the chunk, a newline and
  the end marker, then the next section; so the start marker occurs at least once, followed
  at once by newline, content, newline and end marker. Nothing keeps the marker from
  occurring elsewhere in the string.
\<close>

theorem main_chunk_wrapped:
  assumes "format_chunk_with_context chunks i peripheral ck ok (VStr sm) (VStr em) = Inr s"
  shows "\<exists>content prev_parts next_parts.
           i < length chunks \<and> (chunks ! i) ck = Some content \<and>
           process_peripheral_chunks (take i chunks)
             (case per_previous peripheral of None \<Rightarrow> empty_direction | Some d \<Rightarrow> d) ck ok True
             = Inr prev_parts \<and>
           process_peripheral_chunks (drop (i + 1) chunks)
             (case per_next peripheral of None \<Rightarrow> empty_direction | Some d \<Rightarrow> d) ck ok False
             = Inr next_parts \<and>
           s = (join ''\<newline>'' ([''--- Previous Context ---''] @ prev_parts
                                  @ [''--- End Previous Context ---\<newline>'']) @ ''\<newline>'')
               @ sm @ ''\<newline>'' @ py_str content @ ''\<newline>'' @ em
               @ (''\<newline>'' @ join ''\<newline>'' ([''\<newline>--- Next Context ---''] @ next_parts
                                                    @ [''--- End Next Context ---''])) \<and>
           1 \<le> occurrences sm s"
proof -
  from assms obtain prev_parts where
    prev: "process_peripheral_chunks (take i chunks)
             (case per_previous peripheral of None \<Rightarrow> empty_direction | Some d \<Rightarrow> d) ck ok True
             = Inr prev_parts"
    by (auto simp: format_chunk_with_context_def split: sum.splits)
  from assms prev have i: "i < length chunks"
    by (auto simp: format_chunk_with_context_def split: sum.splits if_splits)
  from assms prev i obtain content where content: "(chunks ! i) ck = Some content"
    by (auto simp: format_chunk_with_context_def lookup_def split: sum.splits option.splits)
  from assms prev i content obtain next_parts where
    nxt: "process_peripheral_chunks (drop (i + 1) chunks)
             (case per_next peripheral of None \<Rightarrow> empty_direction | Some d \<Rightarrow> d) ck ok False
             = Inr next_parts"
    by (auto simp: format_chunk_with_context_def lookup_def split: sum.splits)
  define A where "A = [''--- Previous Context ---''] @ prev_parts @ [''--- End Previous Context ---\<newline>'']"
  define M where "M = sm @ ''\<newline>'' @ py_str content @ ''\<newline>'' @ em"
  define B where "B = [''\<newline>--- Next Context ---''] @ next_parts @ [''--- End Next Context ---'']"
  have ne: "A \<noteq> []" "B \<noteq> []" "[M] @ B \<noteq> []" "[M] \<noteq> []" by (simp_all add: A_def B_def)
  from assms prev i content nxt have "s = join ''\<newline>'' (A @ [M] @ B)"
    by (simp add: format_chunk_with_context_def lookup_def A_def M_def B_def)
  also have "\<dots> = join ''\<newline>'' A @ ''\<newline>'' @ join ''\<newline>'' ([M] @ B)"
    by (rule join_append [OF ne(1) ne(3)])
  also have "join ''\<newline>'' ([M] @ B) = join ''\<newline>'' [M] @ ''\<newline>'' @ join ''\<newline>'' B"
    by (rule join_append [OF ne(4) ne(2)])
  finally have s: "s = (join ''\<newline>'' A @ ''\<newline>'') @ M @ (''\<newline>'' @ join ''\<newline>'' B)"
    by simp
  then have "s = (join ''\<newline>'' A @ ''\<newline>'') @ sm
                  @ ((''\<newline>'' @ py_str content @ ''\<newline>'' @ em) @ (''\<newline>'' @ join ''\<newline>'' B))"
    by (simp add: M_def)
  then have occ: "1 \<le> occurrences sm s"
    by (simp only: occurrences_middle)
  from i content prev nxt s occ show ?thesis
    unfolding A_def M_def B_def by (intro exI conjI) (assumption | simp)+
qed

theorem main_chunk_wrapped_witness:
  "format_chunk_with_context [ex_chunk 1 ''a''] 0 ex_markers ''text'' ''n'' (VStr ''<<'') (VStr ''>>'')
     = Inr ''--- Previous Context ---\<newline>--- End Previous Context ---\<newline>\<newline><<\<newline>a\<newline>>>\<newline>\<newline>--- Next Context ---\<newline>--- End Next Context ---'' \<and>
   1 \<le> occurrences ''<<''
     ''--- Previous Context ---\<newline>--- End Previous Context ---\<newline>\<newline><<\<newline>a\<newline>>>\<newline>\<newline>--- Next Context ---\<newline>--- End Next Context ---''"
proof -
  have run: "format_chunk_with_context [ex_chunk 1 ''a''] 0 ex_markers ''text'' ''n'' (VStr ''<<'') (VStr ''>>'')
     = Inr ''--- Previous Context ---\<newline>--- End Previous Context ---\<newline>\<newline><<\<newline>a\<newline>>>\<newline>\<newline>--- Next Context ---\<newline>--- End Next Context ---''"
    by (simp add: format_chunk_with_context_def ex_markers_def empty_direction_def
        process_peripheral_chunks_def section_count_def empty_section_def enumerate_eq_zip
        final_parts_def ex_chunk_def lookup_def)
  from main_chunk_wrapped [OF run] run show ?thesis by blast
qed

text \<open>
  Claim C7 as stated fails: when the content of the chunk contains the start marker, the
  marker occurs twice in the returned string.
\<close>

theorem main_chunk_marker_twice_counterexample:
  "format_chunk_with_context [ex_chunk 1 ''a << b''] 0 ex_markers ''text'' ''n'' (VStr ''<<'') (VStr ''>>'')
     = Inr ''--- Previous Context ---\<newline>--- End Previous Context ---\<newline>\<newline><<\<newline>a << b\<newline>>>\<newline>\<newline>--- Next Context ---\<newline>--- End Next Context ---'' \<and>
   occurrences ''<<''
     ''--- Previous Context ---\<newline>--- End Previous Context ---\<newline>\<newline><<\<newline>a << b\<newline>>>\<newline>\<newline>--- Next Context ---\<newline>--- End Next Context ---'' = 2"
  by (simp add: format_chunk_with_context_def ex_markers_def empty_direction_def
        process_peripheral_chunks_def section_count_def empty_section_def enumerate_eq_zip
        final_parts_def ex_chunk_def lookup_def)

section \<open>Validation of the configuration\<close>

lemma check_section_middle: "check_section d ''middle'' sc = Inr ()"
  by (simp add: check_section_def split: option.splits)

lemma check_section_ok: "section_has_count sc \<Longrightarrow> check_section d s sc = Inr ()"
  by (auto simp: check_section_def section_has_count_def split: option.splits)

lemma check_section_Inr:
  "check_section d s sc = Inr () \<Longrightarrow> s = ''middle'' \<or> section_has_count sc"
  by (auto simp: check_section_def section_has_count_def split: option.splits if_splits)

lemma check_direction_ok: "direction_valid dc \<Longrightarrow> check_direction d dc = Inr ()"
  by (auto simp: check_direction_def direction_valid_def check_section_ok check_section_middle
      split: option.splits)

lemma check_direction_Inr: "check_direction d dc = Inr () \<Longrightarrow> direction_valid dc"
  by (auto simp: check_direction_def direction_valid_def
      split: option.splits sum.splits dest: check_section_Inr)

lemma check_marker_ok: "marker_valid m \<Longrightarrow> check_marker name m = Inr ()"
  by (auto simp: check_marker_def marker_valid_def split: option.splits)

lemma check_marker_Inr: "check_marker name m = Inr () \<Longrightarrow> marker_valid m"
  by (auto simp: check_marker_def marker_valid_def split: option.splits if_splits)

lemma syntax_check_ok: "valid_config cfg \<Longrightarrow> syntax_check cfg = Inr ()"
  by (auto simp: syntax_check_def valid_config_def check_direction_ok check_marker_ok
      split: option.splits)

lemma syntax_check_valid: "syntax_check cfg = Inr () \<Longrightarrow> valid_config cfg"
  by (auto simp: syntax_check_def valid_config_def
      split: option.splits sum.splits if_splits dest: check_direction_Inr check_marker_Inr)

lemma check_section_Inl:
  "check_section d s sc = Inl e \<Longrightarrow> s \<noteq> ''middle'' \<and> count_missing d s sc e"
  by (auto simp: check_section_def count_missing_def split: option.splits if_splits)

lemma check_direction_Inl:
  "check_direction d dc = Inl e \<Longrightarrow> direction_violation d dc e"
  by (auto simp: check_direction_def direction_violation_def
      split: option.splits sum.splits dest: check_section_Inl)

lemma check_marker_Inl: "check_marker name m = Inl e \<Longrightarrow> marker_violation name m e"
  by (auto simp: check_marker_def marker_violation_def split: option.splits if_splits)

lemma syntax_check_Inl: "syntax_check cfg = Inl e \<Longrightarrow> violation cfg e"
  unfolding syntax_check_def violation_def
  by (auto split: option.splits sum.splits if_splits
      dest: check_direction_Inl check_marker_Inl)

lemma execute_missing_key:
  assumes "cfg_content_key cfg = None \<or> cfg_doc_id_key cfg = None \<or> cfg_order_key cfg = None
           \<or> cfg_peripheral_chunks cfg = None"
  shows "\<exists>k. execute cfg input_data = Inl (KeyError k)"
  using assms by (auto simp: execute_def split: option.splits)

text \<open>
  Claim C8, as amended. Validation is the separate entry point \<^verbatim>\<open>syntax_check\<close>: it accepts
  exactly the valid configurations, and for every invalid one it raises an error that names
  a key the configuration lacks or holds with the wrong type, so that no record is produced
  when it runs before \<^verbatim>\<open>execute\<close>. The function \<^verbatim>\<open>execute\<close> itself checks nothing; it
  raises a \<^verbatim>\<open>KeyError\<close> when one of the four required keys is missing.
\<close>

theorem validation_rejects:
  "(valid_config cfg \<longrightarrow>
      syntax_check cfg = Inr () \<and> checked_execute cfg input_data = execute cfg input_data) \<and>
   (\<not> valid_config cfg \<longrightarrow>
      (\<exists>e. syntax_check cfg = Inl e \<and> violation cfg e \<and> checked_execute cfg input_data = Inl e)) \<and>
   (cfg_content_key cfg = None \<or> cfg_doc_id_key cfg = None \<or> cfg_order_key cfg = None
      \<or> cfg_peripheral_chunks cfg = None \<longrightarrow>
      (\<exists>k. execute cfg input_data = Inl (KeyError k)))"
proof (intro conjI impI)
  assume "valid_config cfg"
  then have "syntax_check cfg = Inr ()" by (rule syntax_check_ok)
  then show "syntax_check cfg = Inr ()" "checked_execute cfg input_data = execute cfg input_data"
    by (simp_all add: checked_execute_def)
next
  assume "\<not> valid_config cfg"
  then have "syntax_check cfg \<noteq> Inr ()" using syntax_check_valid by blast
  then obtain e where e: "syntax_check cfg = Inl e" by (cases "syntax_check cfg") auto
  from e have "violation cfg e" by (rule syntax_check_Inl)
  moreover from e have "checked_execute cfg input_data = Inl e" by (simp add: checked_execute_def)
  ultimately show "\<exists>e. syntax_check cfg = Inl e \<and> violation cfg e \<and> checked_execute cfg input_data = Inl e"
    using e by blast
next
  assume "cfg_content_key cfg = None \<or> cfg_doc_id_key cfg = None \<or> cfg_order_key cfg = None
      \<or> cfg_peripheral_chunks cfg = None"
  then show "\<exists>k. execute cfg input_data = Inl (KeyError k)" by (rule execute_missing_key)
qed

theorem validation_rejects_witness:
  "valid_config (ex_config (ex_count (VInt 1))) \<and>
   syntax_check (ex_config (ex_count (VInt 1))) = Inr () \<and>
   \<not> valid_config (ex_config empty_section) \<and>
   syntax_check (ex_config empty_section)
     = Inl (ValueError (''Missing '' @ quoted ''count'' @ '' in previous.head configuration'')) \<and>
   checked_execute (ex_config empty_section) [ex_chunk 1 ''a'']
     = Inl (ValueError (''Missing '' @ quoted ''count'' @ '' in previous.head configuration'')) \<and>
   cfg_content_key ((ex_config empty_section)\<lparr>cfg_content_key := None\<rparr>) = None \<and>
   execute ((ex_config empty_section)\<lparr>cfg_content_key := None\<rparr>) [ex_chunk 1 ''a'']
     = Inl (KeyError ''content_key'')"
  using validation_rejects [of "ex_config (ex_count (VInt 1))" "[ex_chunk 1 ''a'']"]
    validation_rejects [of "ex_config empty_section" "[ex_chunk 1 ''a'']"]
    validation_rejects [of "(ex_config empty_section)\<lparr>cfg_content_key := None\<rparr>" "[ex_chunk 1 ''a'']"]
  by (simp add: valid_config_def ex_config_def ex_count_def empty_section_def direction_valid_def
        section_has_count_def marker_valid_def syntax_check_def check_direction_def
        check_section_def check_marker_def checked_execute_def execute_def)

text \<open>
  Claim C8 as stated fails: for a configuration whose declared head section has no count,
  \<^verbatim>\<open>execute\<close> raises nothing and returns an output record.
\<close>

theorem execute_without_count_counterexample:
  "\<not> valid_config (ex_config empty_section) \<and>
   execute (ex_config empty_section) [ex_chunk 1 ''a'']
     = Inr ([(ex_chunk 1 ''a'')(''text_formatted'' \<mapsto> VStr
          ''--- Previous Context ---\<newline>--- End Previous Context ---\<newline>\<newline>--- Begin Main Chunk ---\<newline>a\<newline>--- End Main Chunk ---\<newline>\<newline>--- Next Context ---\<newline>--- End Next Context ---'')],
         0)"
  by (simp add: valid_config_def ex_config_def empty_section_def direction_valid_def
        section_has_count_def execute_def group_step_def process_group_def sort_chunks_def
        chunk_step_def formatted_key_def format_chunk_with_context_def empty_direction_def
        process_peripheral_chunks_def section_count_def enumerate_eq_zip
        final_parts_def ex_chunk_def lookup_def)

section \<open>Coercion of the counts\<close>

lemma check_section_map: "check_section d s (map_option (map_section f) sc) = check_section d s sc"
  by (cases sc) (auto simp: check_section_def map_section_def)

lemma check_direction_map:
  "check_direction d (map_option (map_direction f) dc) = check_direction d dc"
  by (cases dc) (auto simp: check_direction_def map_direction_def check_section_map split: sum.splits)

lemma map_counts_fields:
  "cfg_content_key (map_counts f cfg) = cfg_content_key cfg"
  "cfg_doc_id_key (map_counts f cfg) = cfg_doc_id_key cfg"
  "cfg_order_key (map_counts f cfg) = cfg_order_key cfg"
  "cfg_main_chunk_start (map_counts f cfg) = cfg_main_chunk_start cfg"
  "cfg_main_chunk_end (map_counts f cfg) = cfg_main_chunk_end cfg"
  "cfg_peripheral_chunks (map_counts f cfg) = map_option (map_peripheral f) (cfg_peripheral_chunks cfg)"
  by (simp_all add: map_counts_def)

lemma map_peripheral_fields:
  "per_previous (map_peripheral f p) = map_option (map_direction f) (per_previous p)"
  "per_next (map_peripheral f p) = map_option (map_direction f) (per_next p)"
  by (simp_all add: map_peripheral_def)

lemma syntax_check_map_counts: "syntax_check (map_counts f cfg) = syntax_check cfg"
proof (cases "cfg_peripheral_chunks cfg")
  case None
  show ?thesis
    unfolding syntax_check_def map_counts_fields None option.map option.case ..
next
  case (Some p)
  show ?thesis
    unfolding syntax_check_def map_counts_fields Some option.map option.case
      map_peripheral_fields check_direction_map ..
qed

lemma count_int_coerce_count: "count_int (coerce_count v) = count_int v"
  by (cases "count_int v") (auto simp: coerce_count_def)

lemma section_count_coerce:
  "section_count (map_option (map_section coerce_count) sc) = section_count sc"
proof (cases sc)
  case None
  then show ?thesis by simp
next
  case (Some s)
  then show ?thesis
    by (cases "sec_count s") (auto simp: section_count_def map_section_def count_int_coerce_count)
qed

lemma get_section_coerce:
  "sec_content_key (get_section (map_direction f d) b) = sec_content_key (get_section d b)"
  by (cases b) (auto simp: get_section_def map_direction_def map_section_def empty_section_def
        split: option.splits)

lemma chunk_line_coerce: "chunk_line (map_direction f d) ck ok b c = chunk_line d ck ok b c"
  by (simp add: chunk_line_def get_section_coerce)

lemma has_middle_coerce: "has_middle (map_direction f d) = has_middle d"
  by (simp add: has_middle_def map_direction_def)

lemma loop_body_coerce:
  "loop_body chunks (map_direction f d) ck ok h t = loop_body chunks d ck ok h t"
  unfolding loop_body_def chunk_line_coerce has_middle_coerce ..

lemma process_coerce:
  "process_peripheral_chunks chunks (map_direction coerce_count d) ck ok r
     = process_peripheral_chunks chunks d ck ok r"
proof -
  have h: "section_count (dir_head (map_direction coerce_count d)) = section_count (dir_head d)"
    and t: "section_count (dir_tail (map_direction coerce_count d)) = section_count (dir_tail d)"
    by (simp_all add: map_direction_def section_count_coerce)
  show ?thesis
    unfolding process_peripheral_chunks_def h t loop_body_coerce ..
qed

lemma map_direction_empty: "map_direction f empty_direction = empty_direction"
  by (simp add: map_direction_def empty_direction_def)

lemma direction_default_coerce:
  "(case map_option (map_direction f) dc of None \<Rightarrow> empty_direction | Some d \<Rightarrow> d)
     = map_direction f (case dc of None \<Rightarrow> empty_direction | Some d \<Rightarrow> d)"
  by (cases dc) (simp_all add: map_direction_empty)

lemma direction_process_coerce:
  "process_peripheral_chunks chunks
       (case map_option (map_direction coerce_count) dc of None \<Rightarrow> empty_direction | Some d \<Rightarrow> d)
       ck ok r
     = process_peripheral_chunks chunks
         (case dc of None \<Rightarrow> empty_direction | Some d \<Rightarrow> d) ck ok r"
  by (cases dc) (simp_all add: process_coerce)

lemma format_coerce:
  "format_chunk_with_context chunks i (map_peripheral coerce_count p) ck ok sm em
     = format_chunk_with_context chunks i p ck ok sm em"
proof -
  show ?thesis
    unfolding format_chunk_with_context_def map_peripheral_fields direction_process_coerce ..
qed

lemma chunk_step_coerce:
  "chunk_step chunks (map_peripheral coerce_count p) ck ok sm em = chunk_step chunks p ck ok sm em"
  unfolding chunk_step_def format_coerce ..

lemma process_group_coerce:
  "process_group (map_peripheral coerce_count p) ck ok sm em = process_group p ck ok sm em"
  unfolding process_group_def chunk_step_coerce ..

lemma execute_coerce: "execute (map_counts coerce_count cfg) input_data = execute cfg input_data"
proof (cases "cfg_peripheral_chunks cfg")
  case None
  show ?thesis
    unfolding execute_def map_counts_fields None option.map option.case ..
next
  case (Some p)
  show ?thesis
    unfolding execute_def map_counts_fields Some option.map option.case process_group_coerce ..
qed

lemma process_bad_count:
  "uncoercible (dir_head d) \<or> uncoercible (dir_tail d) \<Longrightarrow>
     \<exists>e. process_peripheral_chunks chunks d ck ok r = Inl e"
  by (auto simp: process_peripheral_chunks_def uncoercible_def split: sum.splits)

lemma direction_bad_count:
  "\<exists>e. process_peripheral_chunks chunks
            (case dc of None \<Rightarrow> empty_direction | Some d \<Rightarrow> d) ck ok r = Inl e"
  if "direction_uncoercible dc"
proof (cases dc)
  case None
  with that show ?thesis by (simp add: direction_uncoercible_def)
next
  case (Some d)
  with that have "uncoercible (dir_head d) \<or> uncoercible (dir_tail d)"
    by (simp add: direction_uncoercible_def)
  from process_bad_count [OF this] Some show ?thesis by simp
qed

lemma format_bad_count:
  assumes "direction_uncoercible (per_previous p) \<or> direction_uncoercible (per_next p)"
  shows "\<exists>e. format_chunk_with_context chunks i p ck ok sm em = Inl e"
  using assms
proof
  assume "direction_uncoercible (per_previous p)"
  from direction_bad_count [OF this, of "take i chunks" ck ok True]
  show ?thesis by (auto simp: format_chunk_with_context_def)
next
  assume "direction_uncoercible (per_next p)"
  from direction_bad_count [OF this, of "drop (i + 1) chunks" ck ok False]
  show ?thesis by (auto simp: format_chunk_with_context_def split: sum.splits)
qed

lemma sort_chunks_length: "sort_chunks rd ok items = Inr xs \<Longrightarrow> length xs = length items"
  by (auto simp: sort_chunks_def split: sum.splits if_splits dest: map_err_Inr)

lemma process_group_bad_count:
  assumes "direction_uncoercible (per_previous p) \<or> direction_uncoercible (per_next p)"
    and "snd grp \<noteq> []"
  shows "\<exists>e. process_group p ck ok sm em results grp = Inl e"
proof (cases "sort_chunks (\<lambda>c. c) ok (snd grp)")
  case (Inl e)
  then show ?thesis by (simp add: process_group_def)
next
  case (Inr chunks)
  from sort_chunks_length [OF Inr] assms(2) obtain c cs where cs: "chunks = c # cs"
    by (cases chunks) auto
  from format_bad_count [OF assms(1), of chunks 0 ck ok sm em]
  obtain e where "format_chunk_with_context chunks 0 p ck ok sm em = Inl e" ..
  then have "chunk_step chunks p ck ok sm em results (0, c) = Inl e"
    by (simp add: chunk_step_def)
  then show ?thesis
    by (simp add: process_group_def Inr cs [symmetric]) (simp add: cs enumerate_simps)
qed

lemma group_add_nonempty:
  "(\<forall>p\<in>set g. snd p \<noteq> []) \<Longrightarrow>
     group_add d x g \<noteq> [] \<and> (\<forall>p\<in>set (group_add d x g). snd p \<noteq> [])"
  by (induction d x g rule: group_add.induct) auto

lemma grouping_nonempty:
  assumes "for_each (group_step rd dk) g xs = Inr g'" "\<forall>p\<in>set g. snd p \<noteq> []"
  shows "(\<forall>p\<in>set g'. snd p \<noteq> []) \<and> (xs \<noteq> [] \<longrightarrow> g' \<noteq> [])"
  using assms
proof (induction xs arbitrary: g)
  case Nil
  then show ?case by simp
next
  case (Cons x xs)
  from Cons.prems(1) have "(case group_step rd dk g x of Inl e \<Rightarrow> Inl e
      | Inr g1 \<Rightarrow> for_each (group_step rd dk) g1 xs) = Inr g'" by simp
  then obtain g1 where g1: "group_step rd dk g x = Inr g1"
    and rest1: "for_each (group_step rd dk) g1 xs = Inr g'"
    by (rule bind_InrE)
  from g1 obtain d where d: "lookup (rd x) dk = Inr d" and g1': "g1 = group_add d x g"
    by (auto simp: group_step_def split: sum.splits)
  from rest1 g1' have rest: "for_each (group_step rd dk) (group_add d x g) xs = Inr g'" by simp
  from group_add_nonempty [OF Cons.prems(2), of d x]
  have ne: "group_add d x g \<noteq> []" and all: "\<forall>p\<in>set (group_add d x g). snd p \<noteq> []" by simp_all
  from Cons.IH [OF rest all] have g': "\<forall>p\<in>set g'. snd p \<noteq> []" by simp
  have "g' \<noteq> []"
  proof (cases xs)
    case Nil
    with rest ne show ?thesis by simp
  next
    case (Cons y ys)
    with Cons.IH [OF rest all] show ?thesis by simp
  qed
  with g' show ?case by simp
qed

lemma execute_bad_count:
  assumes "has_uncoercible_count cfg" "input_data \<noteq> []"
  shows "\<exists>e. execute cfg input_data = Inl e"
proof (cases "execute cfg input_data")
  case (Inl e)
  then show ?thesis by blast
next
  case (Inr r)
  from assms(1) obtain p where p: "cfg_peripheral_chunks cfg = Some p"
    and bad: "direction_uncoercible (per_previous p) \<or> direction_uncoercible (per_next p)"
    by (auto simp: has_uncoercible_count_def split: option.splits)
  from Inr p obtain ck dk ok g where
    keys: "cfg_content_key cfg = Some ck" "cfg_doc_id_key cfg = Some dk" "cfg_order_key cfg = Some ok"
    and g: "for_each (group_step (\<lambda>c. c) dk) [] input_data = Inr g"
    by (auto simp: execute_def Let_def split: option.splits sum.splits)
  define sm where "sm = (case cfg_main_chunk_start cfg of
                           None \<Rightarrow> VStr ''--- Begin Main Chunk ---'' | Some v \<Rightarrow> v)"
  define em where "em = (case cfg_main_chunk_end cfg of
                           None \<Rightarrow> VStr ''--- End Main Chunk ---'' | Some v \<Rightarrow> v)"
  from grouping_nonempty [OF g] assms(2) obtain grp gs where gs: "g = grp # gs" and ne: "snd grp \<noteq> []"
    by (cases g) auto
  from process_group_bad_count [OF bad ne, of ck ok sm em "[]"]
  obtain e where "process_group p ck ok sm em [] grp = Inl e" ..
  then have "for_each (process_group p ck ok sm em) [] g = Inl e"
    by (simp add: gs)
  then have "execute cfg input_data = Inl e"
    by (simp add: execute_def p keys g sm_def em_def)
  then show ?thesis by blast
qed

lemma execute_empty:
  assumes "cfg_content_key cfg \<noteq> None" "cfg_doc_id_key cfg \<noteq> None" "cfg_order_key cfg \<noteq> None"
    "cfg_peripheral_chunks cfg \<noteq> None"
  shows "execute cfg [] = Inr ([], 0)"
  using assms by (auto simp: execute_def)

text \<open>
  Claim C10, as amended. \<^verbatim>\<open>syntax_check\<close> looks only at the presence of a count: changing
  the values of the counts in any way leaves its result the same. \<^verbatim>\<open>execute\<close> uses a head or
  tail count through \<^verbatim>\<open>int()\<close> only, so on every input it behaves on a configuration as on
  the one whose int-coercible counts are replaced by their integers. When a head or tail
  count of a present direction is not int-coercible, \<^verbatim>\<open>execute\<close> raises an error on every
  non-empty input; on the empty input, with the four required keys present, no count is
  coerced and the result is empty.
\<close>

theorem count_coercion:
  "syntax_check (map_counts f cfg) = syntax_check cfg \<and>
   execute (map_counts coerce_count cfg) input_data = execute cfg input_data \<and>
   (has_uncoercible_count cfg \<and> input_data \<noteq> [] \<longrightarrow> (\<exists>e. execute cfg input_data = Inl e)) \<and>
   (cfg_content_key cfg \<noteq> None \<and> cfg_doc_id_key cfg \<noteq> None \<and> cfg_order_key cfg \<noteq> None \<and>
    cfg_peripheral_chunks cfg \<noteq> None \<longrightarrow> execute cfg [] = Inr ([], 0))"
  using syntax_check_map_counts [of f cfg] execute_coerce [of cfg input_data]
    execute_bad_count [of cfg input_data] execute_empty [of cfg]
  by blast

theorem count_coercion_witness:
  "has_uncoercible_count (ex_config (ex_count (VStr ''abc''))) \<and>
   has_uncoercible_count (ex_config (ex_count (VStr [CHR 0x1C, CHR ''2'']))) \<and>
   has_uncoercible_count (ex_config (ex_count (VStr (CHR ''1'' # replicate 4300 (CHR ''1''))))) \<and>
   has_uncoercible_count (ex_config (ex_float_count FNan)) \<and>
   has_uncoercible_count (ex_config (ex_float_count (FInf False))) \<and>
   syntax_check (ex_config (ex_count (VStr ''abc''))) = Inr () \<and>
   execute (ex_config (ex_count (VStr ''abc''))) [ex_chunk 1 ''a''] = Inl (ValueError ''int()'') \<and>
   execute (ex_config (ex_float_count (FInf False))) [ex_chunk 1 ''a''] = Inl OverflowError \<and>
   execute (ex_config (ex_count (VStr ''abc''))) [] = Inr ([], 0) \<and>
   map_counts coerce_count (ex_config (ex_count (VStr '' 2 ''))) = ex_config (ex_count (VInt 2)) \<and>
   map_counts coerce_count (ex_config (ex_float_count (FFinite (5 / 2)))) = ex_config (ex_count (VInt 2)) \<and>
   map_counts coerce_count (ex_config (ex_float_count (FFinite (- 5 / 2)))) = ex_config (ex_count (VInt (- 2))) \<and>
   syntax_check (ex_config (ex_count (VStr '' 2 ''))) = Inr () \<and>
   execute (ex_config (ex_count (VStr '' 2 ''))) ex_chunks
     = execute (ex_config (ex_count (VInt 2))) ex_chunks \<and>
   execute (ex_config (ex_float_count (FFinite (5 / 2)))) ex_chunks
     = execute (ex_config (ex_count (VInt 2))) ex_chunks"
proof -
  have bad: "has_uncoercible_count (ex_config (ex_count (VStr ''abc'')))"
    "has_uncoercible_count (ex_config (ex_count (VStr [CHR 0x1C, CHR ''2''])))"
    "has_uncoercible_count (ex_config (ex_count (VStr (CHR ''1'' # replicate 4300 (CHR ''1'')))))"
    "has_uncoercible_count (ex_config (ex_float_count FNan))"
    "has_uncoercible_count (ex_config (ex_float_count (FInf False)))"
    by (simp_all add: has_uncoercible_count_def ex_config_def ex_count_def ex_float_count_def
          direction_uncoercible_def uncoercible_def section_count_def int_of_str_def strip_def
          is_space_def parse_literal_def max_str_digits_def parse_digits_def is_digit_def)
  have fl: "\<lfloor>(5 :: rat) / 2\<rfloor> = 2"
    by code_simp
  have co: "map_counts coerce_count (ex_config (ex_count (VStr '' 2 ''))) = ex_config (ex_count (VInt 2))"
    "map_counts coerce_count (ex_config (ex_float_count (FFinite (5 / 2)))) = ex_config (ex_count (VInt 2))"
    "map_counts coerce_count (ex_config (ex_float_count (FFinite (- 5 / 2)))) = ex_config (ex_count (VInt (- 2)))"
    by (simp_all add: map_counts_def map_peripheral_def map_direction_def map_section_def
          coerce_count_def ex_config_def ex_count_def ex_float_count_def int_of_str_def strip_def
          is_space_def parse_literal_def max_str_digits_def parse_digits_def is_digit_def
          digit_val_def fl)
  have ok: "syntax_check (ex_config (ex_count v)) = Inr ()" for v
    by (simp add: syntax_check_def ex_config_def ex_count_def check_direction_def
          check_section_def check_marker_def)
  have run: "execute (ex_config (ex_count (VStr ''abc''))) [ex_chunk 1 ''a''] = Inl (ValueError ''int()'')"
    "execute (ex_config (ex_float_count (FInf False))) [ex_chunk 1 ''a''] = Inl OverflowError"
    by (simp_all add: execute_def ex_config_def ex_count_def ex_float_count_def group_step_def
          process_group_def sort_chunks_def chunk_step_def format_chunk_with_context_def
          process_peripheral_chunks_def section_count_def enumerate_eq_zip ex_chunk_def
          lookup_def int_of_str_def strip_def is_space_def parse_literal_def max_str_digits_def
          parse_digits_def is_digit_def)
  from count_coercion [of id "ex_config (ex_count (VStr ''abc''))" "[ex_chunk 1 ''a'']"]
    count_coercion [of id "ex_config (ex_count (VStr '' 2 ''))" ex_chunks]
    count_coercion [of id "ex_config (ex_float_count (FFinite (5 / 2)))" ex_chunks]
    bad co ok run
  show ?thesis
    by (simp add: ex_config_def)
qed

text \<open>
  Claim C10 as stated fails on the empty input: the count \<^verbatim>\<open>None\<close> is not int-coercible,
  validation succeeds, and \<^verbatim>\<open>execute\<close> returns without an error.
\<close>

theorem uncoercible_count_empty_input_counterexample:
  "has_uncoercible_count (ex_config (ex_count VNone)) \<and>
   syntax_check (ex_config (ex_count VNone)) = Inr () \<and>
   execute (ex_config (ex_count VNone)) [] = Inr ([], 0)"
  by (simp add: has_uncoercible_count_def ex_config_def ex_count_def direction_uncoercible_def
        uncoercible_def section_count_def syntax_check_def check_direction_def
        check_section_def check_marker_def execute_def)

section \<open>Grouping, sorting and the loops of \<^verbatim>\<open>execute\<close>\<close>






lemma set_first_seen [simp]: "set (first_seen xs) = set xs"
  by (induction xs) auto














lemma map2_append_same:
  "length xs = length ys \<Longrightarrow> map2 f (xs @ xs') (ys @ ys') = map2 f xs ys @ map2 f xs' ys'"
  by simp







section \<open>Runs that return\<close>
















section \<open>The records of the output\<close>






end
